theory Spec2Isabelle
  imports Complex_Main "HOL-Library.Word"
begin

unbundle bit_operations_syntax

section \<open>Data model\<close>

text \<open>
  The TypeScript sources compute with IEEE doubles. A \<^verbatim>\<open>number\<close> that holds a time or
  an amplitude is a \<^typ>\<open>real\<close>, and a \<^verbatim>\<open>number\<close> that holds a count or an index is
  a \<^typ>\<open>nat\<close> or an \<^typ>\<open>int\<close>. The functions are embedded twice. The first
  embedding computes on the reals exactly; it carries the properties that do not depend
  on rounding. The second, whose names end in D, rounds every arithmetic operation to the
  nearest double as the engine does; it carries the properties of sums, differences and
  products of times. NaN and the infinities are outside both.
\<close>

datatype MotionType = Idle | IdleToSpeech | SpeechLoop | SpeechToIdle

datatype SegmentKind = IdleSeg | TalkSeg

record ClipAsset =
  clip_id :: string
  clip_type :: MotionType
  clip_duration :: real

record AudioSegment =
  seg_id :: string
  seg_kind :: SegmentKind
  seg_start :: real
  seg_duration :: real

record TimelinePlacement =
  pl_clip :: ClipAsset
  pl_start :: real

record TalkPlan =
  segmentId :: string
  videoStart :: real
  videoEnd :: real
  audioStart :: real
  audioDuration :: real

record TimelinePlan =
  placements :: "TimelinePlacement list"
  talkPlans :: "TalkPlan list"
  totalDuration :: real

record ClipLibrary =
  lib_idle :: "ClipAsset list"
  lib_idleToSpeech :: "ClipAsset list"
  lib_speechLoop :: "ClipAsset list"
  lib_speechToIdle :: "ClipAsset list"

text \<open>
  A decoded AudioBuffer: its sample rate, its length in sample frames and the sample
  arrays of its channels (\<^verbatim>\<open>getChannelData\<close>), each of that length. Decoding the file is
  the browser's work and is not modelled: analyzeAudio is read from the decoded buffer on.
\<close>

record AudioBuffer =
  ab_sampleRate :: real
  ab_length :: nat
  ab_channels :: "real list list"

definition ab_numberOfChannels :: "AudioBuffer \<Rightarrow> nat" where
  "ab_numberOfChannels b = length (ab_channels b)"

definition ab_duration :: "AudioBuffer \<Rightarrow> real" where
  "ab_duration b = real (ab_length b) / ab_sampleRate b"

section \<open>Double-precision arithmetic\<close>

text \<open>
  A \<^verbatim>\<open>number\<close> of the sources is an IEEE 754 binary64 value, and every arithmetic
  operation on such values is the exact operation followed by rounding to the nearest
  value of the format, ties to the even significand. \<open>double\<close> is this rounding on the
  reals: 53 significant bits, on a grid no finer than \<open>2 ^ - 1074\<close> (the subnormals).
  \<open>expo x\<close> is the binary exponent of \<open>x\<close>, \<open>ulpExp x\<close> the exponent of the grid around
  \<open>x\<close>, and \<open>roundEven\<close> rounds to the nearest integer, ties to even. The largest finite
  value of the format (about 1.8e308), the infinities and NaN are not modelled: where it
  matters the theorems bound their inputs far below that value.
\<close>

definition expo :: "real \<Rightarrow> int" where
  "expo x = (if x = 0 then 0 else \<lfloor>log 2 \<bar>x\<bar>\<rfloor>)"

definition roundEven :: "real \<Rightarrow> int" where
  "roundEven y =
     (let f = \<lfloor>y\<rfloor>; r = y - of_int f
      in if r < 1 / 2 then f else if 1 / 2 < r then f + 1 else if even f then f else f + 1)"

definition ulpExp :: "real \<Rightarrow> int" where
  "ulpExp x = max (expo x - 52) (- 1074)"

definition double :: "real \<Rightarrow> real" where
  "double x = of_int (roundEven (x / 2 powi ulpExp x)) * 2 powi ulpExp x"

text \<open>The values of the format are the fixed points of the rounding.\<close>

definition isDouble :: "real \<Rightarrow> bool" where
  "isDouble x \<longleftrightarrow> double x = x"

section \<open>The clip library (groupClips)\<close>

text \<open>\<^verbatim>\<open>library[type]\<close>: the pool of one motion type.\<close>

fun pool :: "ClipLibrary \<Rightarrow> MotionType \<Rightarrow> ClipAsset list" where
  "pool lib Idle = lib_idle lib"
| "pool lib IdleToSpeech = lib_idleToSpeech lib"
| "pool lib SpeechLoop = lib_speechLoop lib"
| "pool lib SpeechToIdle = lib_speechToIdle lib"

text \<open>\<^verbatim>\<open>acc[clip.type].push(clip)\<close>: the reducer of groupClips.\<close>

fun pushClip :: "ClipLibrary \<Rightarrow> ClipAsset \<Rightarrow> ClipLibrary" where
  "pushClip acc clip =
     (case clip_type clip of
        Idle \<Rightarrow> acc\<lparr>lib_idle := lib_idle acc @ [clip]\<rparr>
      | IdleToSpeech \<Rightarrow> acc\<lparr>lib_idleToSpeech := lib_idleToSpeech acc @ [clip]\<rparr>
      | SpeechLoop \<Rightarrow> acc\<lparr>lib_speechLoop := lib_speechLoop acc @ [clip]\<rparr>
      | SpeechToIdle \<Rightarrow> acc\<lparr>lib_speechToIdle := lib_speechToIdle acc @ [clip]\<rparr>)"

definition emptyLibrary :: ClipLibrary where
  "emptyLibrary =
     \<lparr>lib_idle = [], lib_idleToSpeech = [], lib_speechLoop = [], lib_speechToIdle = []\<rparr>"

definition groupClips :: "ClipAsset list \<Rightarrow> ClipLibrary" where
  "groupClips clips = foldl pushClip emptyLibrary clips"

section \<open>The timeline scheduler (buildTimelinePlan)\<close>

datatype error =
  IdleClipsRequired
  | SpeechLoopClipsRequired
  | MissingClipForState MotionType

text \<open>The mutable locals of buildTimelinePlan that its closures share.\<close>

record SchedState =
  st_placements :: "TimelinePlacement list"
  st_talkPlans :: "TalkPlan list"
  st_videoCursor :: real
  st_previousKind :: SegmentKind
  st_counters :: "MotionType \<Rightarrow> nat"

definition nextIndex :: "(MotionType \<Rightarrow> nat) \<Rightarrow> MotionType \<Rightarrow> nat \<times> (MotionType \<Rightarrow> nat)" where
  "nextIndex counter ty = (let v = counter ty in (v, counter(ty := v + 1)))"

definition takeClip :: "ClipLibrary \<Rightarrow> MotionType \<Rightarrow> SchedState \<Rightarrow> error + (ClipAsset \<times> SchedState)" where
  "takeClip library ty st =
     (let list = pool library ty in
      if list = [] then Inl (MissingClipForState ty)
      else
        let (v, counters') = nextIndex (st_counters st) ty;
            clip = list ! (v mod length list)
        in Inr (clip,
             st\<lparr>st_placements := st_placements st @ [\<lparr>pl_clip = clip, pl_start = st_videoCursor st\<rparr>],
                st_videoCursor := st_videoCursor st + clip_duration clip,
                st_counters := counters'\<rparr>))"

text \<open>maybeTakeClip returns null and leaves the state alone on an empty pool.\<close>

definition maybeTakeClip :: "ClipLibrary \<Rightarrow> MotionType \<Rightarrow> SchedState \<Rightarrow> error + SchedState" where
  "maybeTakeClip library ty st =
     (if pool library ty = [] then Inr st
      else case takeClip library ty st of Inl e \<Rightarrow> Inl e | Inr (clip, st') \<Rightarrow> Inr st')"

definition coverPool :: "AudioSegment \<Rightarrow> MotionType" where
  "coverPool segment = (if seg_kind segment = IdleSeg then Idle else SpeechLoop)"

text \<open>
  The while loop of coverSegment. The loop need not end (a pool of clips of duration 0
  never advances \<^verbatim>\<open>covered\<close>), so the result is an option: \<^const>\<open>None\<close> is the run
  that never returns.
\<close>

partial_function (option) coverLoop ::
  "ClipLibrary \<Rightarrow> AudioSegment \<Rightarrow> real \<Rightarrow> SchedState \<Rightarrow> (error + SchedState) option" where
  "coverLoop library segment covered st =
     (if covered + 1 / 100 < seg_duration segment then
        (case takeClip library (coverPool segment) st of
           Inl e \<Rightarrow> Some (Inl e)
         | Inr (clip, st') \<Rightarrow> coverLoop library segment (covered + clip_duration clip) st')
      else Some (Inr st))"

declare coverLoop.simps [code]

definition coverSegment :: "ClipLibrary \<Rightarrow> AudioSegment \<Rightarrow> SchedState \<Rightarrow> (error + SchedState) option" where
  "coverSegment library segment st = coverLoop library segment 0 st"

text \<open>
  One iteration of the for loop over the segments; \<open>nextSegment\<close> is
  \<^verbatim>\<open>segments[i + 1]\<close>, \<^const>\<open>None\<close> when the index is past the end.
\<close>

definition processSegment ::
  "ClipLibrary \<Rightarrow> AudioSegment \<Rightarrow> AudioSegment option \<Rightarrow> SchedState \<Rightarrow> (error + SchedState) option" where
  "processSegment library segment nextSegment st =
     (if seg_kind segment = IdleSeg then
        (case coverSegment library segment st of
           None \<Rightarrow> None
         | Some (Inl e) \<Rightarrow> Some (Inl e)
         | Some (Inr st1) \<Rightarrow> Some (Inr (st1\<lparr>st_previousKind := IdleSeg\<rparr>)))
      else
        (case (if st_previousKind st = IdleSeg then maybeTakeClip library IdleToSpeech st else Inr st) of
           Inl e \<Rightarrow> Some (Inl e)
         | Inr st1 \<Rightarrow>
            (let segmentVideoStart = st_videoCursor st1 in
             case coverSegment library segment st1 of
               None \<Rightarrow> None
             | Some (Inl e) \<Rightarrow> Some (Inl e)
             | Some (Inr st2) \<Rightarrow>
                (let st3 = st2\<lparr>st_talkPlans := st_talkPlans st2 @
                       [\<lparr>segmentId = seg_id segment,
                         videoStart = segmentVideoStart,
                         videoEnd = st_videoCursor st2,
                         audioStart = seg_start segment,
                         audioDuration = seg_duration segment\<rparr>]\<rparr>
                 in if nextSegment = None \<or> map_option seg_kind nextSegment = Some IdleSeg then
                      (case maybeTakeClip library SpeechToIdle st3 of
                         Inl e \<Rightarrow> Some (Inl e)
                       | Inr st4 \<Rightarrow> Some (Inr (st4\<lparr>st_previousKind := IdleSeg\<rparr>)))
                    else Some (Inr (st3\<lparr>st_previousKind := TalkSeg\<rparr>))))))"

fun processSegments ::
  "ClipLibrary \<Rightarrow> AudioSegment list \<Rightarrow> SchedState \<Rightarrow> (error + SchedState) option" where
  "processSegments library [] st = Some (Inr st)"
| "processSegments library (segment # rest) st =
     (case processSegment library segment (case rest of [] \<Rightarrow> None | n # _ \<Rightarrow> Some n) st of
        None \<Rightarrow> None
      | Some (Inl e) \<Rightarrow> Some (Inl e)
      | Some (Inr st') \<Rightarrow> processSegments library rest st')"

definition initialState :: SchedState where
  "initialState =
     \<lparr>st_placements = [], st_talkPlans = [], st_videoCursor = 0,
      st_previousKind = IdleSeg, st_counters = (\<lambda>_. 0)\<rparr>"

definition buildTimelinePlan :: "AudioSegment list \<Rightarrow> ClipAsset list \<Rightarrow> (error + TimelinePlan) option" where
  "buildTimelinePlan segments clips =
     (let library = groupClips clips in
      if lib_idle library = [] then Some (Inl IdleClipsRequired)
      else if lib_speechLoop library = [] then Some (Inl SpeechLoopClipsRequired)
      else
        (case processSegments library segments initialState of
           None \<Rightarrow> None
         | Some (Inl e) \<Rightarrow> Some (Inl e)
         | Some (Inr st) \<Rightarrow>
             Some (Inr \<lparr>placements = st_placements st,
                        talkPlans = st_talkPlans st,
                        totalDuration = st_videoCursor st\<rparr>)))"

section \<open>Audio analysis (analyzeAudio)\<close>

definition WINDOW_SIZE_SEC :: real where "WINDOW_SIZE_SEC = 8 / 100"

definition SILENCE_HOLD_BLOCKS :: nat where "SILENCE_HOLD_BLOCKS = 3"

definition MIN_SEGMENT_DURATION_SEC :: real where "MIN_SEGMENT_DURATION_SEC = 5 / 100"

definition TALK_GAP_TOLERANCE_SEC :: real where "TALK_GAP_TOLERANCE_SEC = 5 / 100"

record AudioAnalysisResult =
  res_buffer :: AudioBuffer
  res_segments :: "AudioSegment list"
  res_rmsValues :: "real list"
  res_windowDuration :: real
  res_talkThreshold :: real
  res_silenceThreshold :: real

text \<open>Decimal digits of an index, for the ids \<^verbatim>\<open>`${kind}-${index}`\<close>.\<close>

fun showNat :: "nat \<Rightarrow> string" where
  "showNat n =
     (if n < 10 then [char_of (48 + n)]
      else showNat (n div 10) @ [char_of (48 + n mod 10)])"

declare showNat.simps [simp del]

fun kindName :: "SegmentKind \<Rightarrow> string" where
  "kindName IdleSeg = ''idle''"
| "kindName TalkSeg = ''talk''"

definition blockSizeOf :: "AudioBuffer \<Rightarrow> nat" where
  "blockSizeOf audioBuffer = nat (max 1 \<lfloor>ab_sampleRate audioBuffer * WINDOW_SIZE_SEC\<rfloor>)"

definition blockCountOf :: "AudioBuffer \<Rightarrow> nat" where
  "blockCountOf audioBuffer =
     nat \<lceil>real (ab_length audioBuffer) / real (blockSizeOf audioBuffer)\<rceil>"

definition windowDurationOf :: "AudioBuffer \<Rightarrow> real" where
  "windowDurationOf audioBuffer = real (blockSizeOf audioBuffer) / ab_sampleRate audioBuffer"

text \<open>
  The two inner loops over channels and sample indices. The indices stay below the
  buffer's length, which is the length of every channel array. A decoded buffer has at
  least one channel; with none the source would divide 0 by 0.
\<close>

definition sumSquares :: "real list list \<Rightarrow> nat \<Rightarrow> nat \<Rightarrow> real" where
  "sumSquares channelData start end =
     (\<Sum>data \<leftarrow> channelData. \<Sum>i \<leftarrow> [start..<end]. (data ! i) * (data ! i))"

definition blockRms :: "AudioBuffer \<Rightarrow> nat \<Rightarrow> real" where
  "blockRms audioBuffer block =
     (let blockSize = blockSizeOf audioBuffer;
          totalSamples = ab_length audioBuffer;
          start = block * blockSize;
          end = min (start + blockSize) totalSamples;
          len = int end - int start
      in if len \<le> 0 then 0
         else
           let meanSquare = sumSquares (ab_channels audioBuffer) start end
                              / (real_of_int len * real (length (ab_channels audioBuffer)))
           in sqrt meanSquare)"

definition rmsValuesOf :: "AudioBuffer \<Rightarrow> real list" where
  "rmsValuesOf audioBuffer = map (blockRms audioBuffer) [0..<blockCountOf audioBuffer]"

text \<open>
  \<^verbatim>\<open>sorted[Math.max(0, Math.floor(sorted.length * 0.9) - 1)] ?? 0\<close>: the index is in
  range unless the list is empty, where the read gives undefined and the default 0.
\<close>

definition strongLevelOf :: "real list \<Rightarrow> real" where
  "strongLevelOf rmsValues =
     (let sorted = sort rmsValues;
          idx = nat (max 0 (\<lfloor>real (length sorted) * (9 / 10)\<rfloor> - 1))
      in if idx < length sorted then sorted ! idx else 0)"

definition talkThresholdOf :: "real list \<Rightarrow> real" where
  "talkThresholdOf rmsValues = max (2 / 100) (strongLevelOf rmsValues * (4 / 10))"

definition silenceThresholdOf :: "real list \<Rightarrow> real" where
  "silenceThresholdOf rmsValues = talkThresholdOf rmsValues * (55 / 100)"

text \<open>The mutable locals of the segmentation scan.\<close>

record ScanState =
  sc_segments :: "AudioSegment list"
  sc_currentKind :: SegmentKind
  sc_currentStart :: real
  sc_silenceBlocks :: nat

definition flushSegment :: "real \<Rightarrow> ScanState \<Rightarrow> ScanState" where
  "flushSegment endTime sc =
     (let duration = endTime - sc_currentStart sc in
      if duration \<le> MIN_SEGMENT_DURATION_SEC then sc\<lparr>sc_currentStart := endTime\<rparr>
      else sc\<lparr>sc_segments := sc_segments sc @
               [\<lparr>seg_id = kindName (sc_currentKind sc) @ ''-'' @ showNat (length (sc_segments sc)),
                 seg_kind = sc_currentKind sc,
                 seg_start = sc_currentStart sc,
                 seg_duration = duration\<rparr>],
             sc_currentStart := endTime\<rparr>)"

text \<open>One iteration of the scan over the blocks.\<close>

definition scanBlock ::
  "real list \<Rightarrow> real \<Rightarrow> real \<Rightarrow> real \<Rightarrow> real \<Rightarrow> ScanState \<Rightarrow> nat \<Rightarrow> ScanState" where
  "scanBlock rmsValues talkThreshold silenceThreshold windowDuration bufferDuration sc block =
     (let v = rmsValues ! block;
          blockEnd = min bufferDuration (real (block + 1) * windowDuration)
      in if sc_currentKind sc = IdleSeg then
           (if v \<ge> talkThreshold then
              (flushSegment (real block * windowDuration) sc)
                \<lparr>sc_currentKind := TalkSeg, sc_silenceBlocks := 0\<rparr>
            else sc)
         else
           (if v < silenceThreshold then
              (let sc1 = sc\<lparr>sc_silenceBlocks := sc_silenceBlocks sc + 1\<rparr> in
               if sc_silenceBlocks sc1 \<ge> SILENCE_HOLD_BLOCKS then
                 (flushSegment blockEnd sc1)\<lparr>sc_currentKind := IdleSeg, sc_silenceBlocks := 0\<rparr>
               else sc1)
            else sc\<lparr>sc_silenceBlocks := 0\<rparr>))"

definition initialScan :: ScanState where
  "initialScan =
     \<lparr>sc_segments = [], sc_currentKind = IdleSeg, sc_currentStart = 0, sc_silenceBlocks = 0\<rparr>"

definition scanSegments ::
  "real list \<Rightarrow> real \<Rightarrow> real \<Rightarrow> real \<Rightarrow> real \<Rightarrow> nat \<Rightarrow> AudioSegment list" where
  "scanSegments rmsValues talkThreshold silenceThreshold windowDuration bufferDuration blockCount =
     sc_segments (flushSegment bufferDuration
       (foldl (scanBlock rmsValues talkThreshold silenceThreshold windowDuration bufferDuration)
          initialScan [0..<blockCount]))"

text \<open>The synthetic leading idle segment (\<^verbatim>\<open>segments.unshift\<close>).\<close>

definition ensureLeadingIdle :: "real \<Rightarrow> AudioSegment list \<Rightarrow> AudioSegment list" where
  "ensureLeadingIdle bufferDuration segments =
     (if segments = [] \<or> seg_kind (hd segments) \<noteq> IdleSeg then
        \<lparr>seg_id = ''idle-0'', seg_kind = IdleSeg, seg_start = 0,
          seg_duration = (if segments \<noteq> [] then seg_start (hd segments) else bufferDuration)\<rparr>
        # segments
      else segments)"

text \<open>
  One iteration of the loop of mergeAdjacentTalkSegments; \<open>merged\<close> holds copies, and the
  merge overwrites the duration of its last element.
\<close>

definition mergeStep :: "real \<Rightarrow> AudioSegment list \<Rightarrow> AudioSegment \<Rightarrow> AudioSegment list" where
  "mergeStep gapTolerance merged segment =
     (if merged = [] then [segment]
      else
        let prev = last merged;
            prevEnd = seg_start prev + seg_duration prev;
            gap = seg_start segment - prevEnd
        in if seg_kind segment = TalkSeg \<and> seg_kind prev = TalkSeg
              \<and> gap \<le> gapTolerance + 1 / 1000000 then
             (let newEnd = seg_start segment + seg_duration segment in
              butlast merged @ [prev\<lparr>seg_duration := newEnd - seg_start prev\<rparr>])
           else merged @ [segment])"

definition mergeAdjacentTalkSegments :: "AudioSegment list \<Rightarrow> real \<Rightarrow> AudioSegment list" where
  "mergeAdjacentTalkSegments segments gapTolerance =
     (if segments = [] then segments else foldl (mergeStep gapTolerance) [] segments)"

definition rebuildSegmentIds :: "AudioSegment list \<Rightarrow> AudioSegment list" where
  "rebuildSegmentIds segments =
     map (\<lambda>(index, segment). segment\<lparr>seg_id := kindName (seg_kind segment) @ ''-'' @ showNat index\<rparr>)
       (enumerate 0 segments)"

definition analyzeAudio :: "AudioBuffer \<Rightarrow> AudioAnalysisResult" where
  "analyzeAudio audioBuffer =
     (let blockCount = blockCountOf audioBuffer;
          windowDuration = windowDurationOf audioBuffer;
          rmsValues = rmsValuesOf audioBuffer;
          talkThreshold = talkThresholdOf rmsValues;
          silenceThreshold = silenceThresholdOf rmsValues;
          segments = ensureLeadingIdle (ab_duration audioBuffer)
            (scanSegments rmsValues talkThreshold silenceThreshold windowDuration
               (ab_duration audioBuffer) blockCount);
          normalizedSegments =
            rebuildSegmentIds (mergeAdjacentTalkSegments segments TALK_GAP_TOLERANCE_SEC)
      in \<lparr>res_buffer = audioBuffer,
          res_segments = normalizedSegments,
          res_rmsValues = rmsValues,
          res_windowDuration = windowDuration,
          res_talkThreshold = talkThreshold,
          res_silenceThreshold = silenceThreshold\<rparr>)"

section \<open>Audio realignment (buildAlignedAudioBuffer)\<close>

datatype domError = NotSupportedError | RangeError

text \<open>
  \<^verbatim>\<open>TypedArray.prototype.subarray(begin, end)\<close>: a negative index counts from the end, and
  both indices are clamped to the array.
\<close>

definition subarray :: "real list \<Rightarrow> int \<Rightarrow> int \<Rightarrow> real list" where
  "subarray xs begin end =
     (let srcLength = int (length xs);
          beginIndex = (if begin < 0 then max (srcLength + begin) 0 else min begin srcLength);
          endIndex = (if end < 0 then max (srcLength + end) 0 else min end srcLength);
          newLength = max (endIndex - beginIndex) 0
      in take (nat newLength) (drop (nat beginIndex) xs))"

text \<open>
  \<^verbatim>\<open>TypedArray.prototype.set(source, offset)\<close>: a RangeError when the offset is negative or
  the source does not fit.
\<close>

definition typedArraySet :: "real list \<Rightarrow> real list \<Rightarrow> int \<Rightarrow> domError + real list" where
  "typedArraySet target source offset =
     (if offset < 0 \<or> int (length source) + offset > int (length target) then Inl RangeError
      else Inr (take (nat offset) target @ source @ drop (nat offset + length source) target))"

text \<open>
  What the loop body computes for one plan before it copies: \<^const>\<open>None\<close> when the plan is
  skipped (\<^verbatim>\<open>continue\<close>), else the source start, the target start and the copy length.
\<close>

definition planCopy :: "AudioBuffer \<Rightarrow> int \<Rightarrow> TalkPlan \<Rightarrow> (int \<times> int \<times> int) option" where
  "planCopy audioBuffer totalSamples plan =
     (let sampleRate = ab_sampleRate audioBuffer;
          sourceStart = \<lfloor>audioStart plan * sampleRate\<rfloor>;
          sourceSamples = \<lfloor>audioDuration plan * sampleRate\<rfloor>;
          targetStart = \<lfloor>videoStart plan * sampleRate\<rfloor>;
          remainingTarget = totalSamples - targetStart
      in if remainingTarget \<le> 0 \<or> sourceSamples \<le> 0 then None
         else
           let copyLength = min (min sourceSamples remainingTarget)
                                (int (ab_length audioBuffer) - sourceStart)
           in if copyLength \<le> 0 then None
              else Some (sourceStart, targetStart, copyLength))"

text \<open>The inner loop over the channels, for one plan that is not skipped.\<close>

fun copyChannels ::
  "real list list \<Rightarrow> real list list \<Rightarrow> int \<Rightarrow> int \<Rightarrow> int \<Rightarrow> domError + real list list" where
  "copyChannels [] outs sourceStart targetStart copyLength = Inr []"
| "copyChannels (data # ins) [] sourceStart targetStart copyLength = Inr []"
| "copyChannels (data # ins) (out # outs) sourceStart targetStart copyLength =
     (let input = subarray data sourceStart (sourceStart + copyLength) in
      case typedArraySet out input targetStart of
        Inl e \<Rightarrow> Inl e
      | Inr out' \<Rightarrow>
         (case copyChannels ins outs sourceStart targetStart copyLength of
            Inl e \<Rightarrow> Inl e
          | Inr outs' \<Rightarrow> Inr (out' # outs')))"

definition alignPlan ::
  "AudioBuffer \<Rightarrow> int \<Rightarrow> real list list \<Rightarrow> TalkPlan \<Rightarrow> domError + real list list" where
  "alignPlan audioBuffer totalSamples output plan =
     (case planCopy audioBuffer totalSamples plan of
        None \<Rightarrow> Inr output
      | Some (sourceStart, targetStart, copyLength) \<Rightarrow>
          copyChannels (ab_channels audioBuffer) output sourceStart targetStart copyLength)"

fun alignPlans ::
  "AudioBuffer \<Rightarrow> int \<Rightarrow> real list list \<Rightarrow> TalkPlan list \<Rightarrow> domError + real list list" where
  "alignPlans audioBuffer totalSamples output [] = Inr output"
| "alignPlans audioBuffer totalSamples output (plan # plans) =
     (case alignPlan audioBuffer totalSamples output plan of
        Inl e \<Rightarrow> Inl e
      | Inr output' \<Rightarrow> alignPlans audioBuffer totalSamples output' plans)"

text \<open>
  The AudioBuffer constructor rejects a length of zero with a NotSupportedError; the
  buffer it returns is silent. The parameters \<open>plans\<close> and \<open>planDuration\<close> are the source's
  \<^verbatim>\<open>talkPlans\<close> and \<^verbatim>\<open>totalDuration\<close>.
\<close>

definition buildAlignedAudioBuffer ::
  "AudioBuffer \<Rightarrow> TalkPlan list \<Rightarrow> real \<Rightarrow> domError + AudioBuffer" where
  "buildAlignedAudioBuffer audioBuffer plans planDuration =
     (let sampleRate = ab_sampleRate audioBuffer;
          totalSamples = \<lceil>planDuration * sampleRate\<rceil>
      in if totalSamples \<le> 0 then Inl NotSupportedError
         else
           let output = replicate (ab_numberOfChannels audioBuffer) (replicate (nat totalSamples) 0)
           in case alignPlans audioBuffer totalSamples output plans of
                Inl e \<Rightarrow> Inl e
              | Inr channels \<Rightarrow>
                  Inr \<lparr>ab_sampleRate = sampleRate, ab_length = nat totalSamples,
                       ab_channels = channels\<rparr>)"


section \<open>PCM encoding (audioBufferToWav)\<close>

type_synonym byte = "8 word"

text \<open>
  The conversions that DataView applies to a number before storing it: truncation
  towards zero, then reduction modulo the width (ToUint16, ToInt16 and ToUint32 of
  ECMAScript on finite numbers).
\<close>

definition toInteger :: "real \<Rightarrow> int" where
  "toInteger x = (if x < 0 then \<lceil>x\<rceil> else \<lfloor>x\<rfloor>)"

definition toUint32 :: "real \<Rightarrow> 32 word" where
  "toUint32 x = word_of_int (toInteger x)"

definition toInt16 :: "real \<Rightarrow> 16 word" where
  "toInt16 x = word_of_int (toInteger x)"

text \<open>
  A DataView over the ArrayBuffer is the list of its bytes; the setters store
  little-endian. Every offset that audioBufferToWav writes lies inside the buffer, so
  the RangeError of an offset outside it does not arise.
\<close>

definition setUint8 :: "byte list \<Rightarrow> nat \<Rightarrow> byte \<Rightarrow> byte list" where
  "setUint8 view offset v = view[offset := v]"

definition setUint16 :: "byte list \<Rightarrow> nat \<Rightarrow> 16 word \<Rightarrow> byte list" where
  "setUint16 view offset v = view[offset := ucast v, offset + 1 := ucast (drop_bit 8 v)]"

definition setInt16 :: "byte list \<Rightarrow> nat \<Rightarrow> 16 word \<Rightarrow> byte list" where
  "setInt16 view offset v = setUint16 view offset v"

definition setUint32 :: "byte list \<Rightarrow> nat \<Rightarrow> 32 word \<Rightarrow> byte list" where
  "setUint32 view offset v =
     view[offset := ucast v, offset + 1 := ucast (drop_bit 8 v),
          offset + 2 := ucast (drop_bit 16 v), offset + 3 := ucast (drop_bit 24 v)]"

definition writeString :: "byte list \<Rightarrow> nat \<Rightarrow> string \<Rightarrow> byte list" where
  "writeString view offset text =
     foldl (\<lambda>view i. setUint8 view (offset + i) (of_char (text ! i))) view [0..<length text]"

text \<open>Lines 196 to 198: clamp to [-1, 1], scale by 0x8000 or 0x7fff, store as int16.\<close>

definition encodeSample :: "real \<Rightarrow> 16 word" where
  "encodeSample sample0 =
     (let sample = max (- 1) (min 1 sample0)
      in toInt16 (if sample < 0 then sample * 32768 else sample * 32767))"

definition writeSample :: "real list list \<Rightarrow> nat \<Rightarrow> byte list \<times> nat \<Rightarrow> nat \<Rightarrow> byte list \<times> nat" where
  "writeSample channelData i acc channel =
     (case acc of (view, offset) \<Rightarrow>
        (setInt16 view offset (encodeSample (channelData ! channel ! i)), offset + 2))"

definition writeFrame :: "real list list \<Rightarrow> nat \<Rightarrow> byte list \<times> nat \<Rightarrow> nat \<Rightarrow> byte list \<times> nat" where
  "writeFrame channelData numChannels acc i =
     foldl (writeSample channelData i) acc [0..<numChannels]"

definition audioBufferToWav :: "AudioBuffer \<Rightarrow> byte list" where
  "audioBufferToWav buffer =
     (let numChannels = ab_numberOfChannels buffer;
          sampleRate = ab_sampleRate buffer;
          format = 1;
          bitDepth = 16;
          samples = ab_length buffer;
          blockAlign = (numChannels * bitDepth) div 8;
          byteRate = sampleRate * real blockAlign;
          dataSize = samples * blockAlign;
          bufferSize = 44 + dataSize;
          view0 = replicate bufferSize 0;
          view1 = writeString view0 0 ''RIFF'';
          view2 = setUint32 view1 4 (of_nat (36 + dataSize));
          view3 = writeString view2 8 ''WAVE'';
          view4 = writeString view3 12 ''fmt '';
          view5 = setUint32 view4 16 16;
          view6 = setUint16 view5 20 format;
          view7 = setUint16 view6 22 (of_nat numChannels);
          view8 = setUint32 view7 24 (toUint32 sampleRate);
          view9 = setUint32 view8 28 (toUint32 byteRate);
          view10 = setUint16 view9 32 (of_nat blockAlign);
          view11 = setUint16 view10 34 (of_nat bitDepth);
          view12 = writeString view11 36 ''data'';
          view13 = setUint32 view12 40 (of_nat dataSize);
          channelData = ab_channels buffer
      in fst (foldl (writeFrame channelData numChannels) (view13, 44) [0..<samples]))"

text \<open>Little-endian reads, as DataView.getUint16, getInt16 and getUint32 make them.\<close>

definition getUint16 :: "byte list \<Rightarrow> nat \<Rightarrow> 16 word" where
  "getUint16 view offset = ucast (view ! offset) OR push_bit 8 (ucast (view ! (offset + 1)))"

definition getInt16 :: "byte list \<Rightarrow> nat \<Rightarrow> int" where
  "getInt16 view offset = sint (getUint16 view offset)"

definition getUint32 :: "byte list \<Rightarrow> nat \<Rightarrow> 32 word" where
  "getUint32 view offset =
     ucast (view ! offset) OR push_bit 8 (ucast (view ! (offset + 1)))
       OR push_bit 16 (ucast (view ! (offset + 2))) OR push_bit 24 (ucast (view ! (offset + 3)))"

text \<open>
  The sample loop seen as a whole: it stores the encoded samples, frame by frame and
  channel by channel, at consecutive even offsets.
\<close>

fun putSamples :: "byte list \<Rightarrow> nat \<Rightarrow> 16 word list \<Rightarrow> byte list" where
  "putSamples view offset [] = view"
| "putSamples view offset (w # ws) = putSamples (setInt16 view offset w) (offset + 2) ws"

definition interleaved :: "AudioBuffer \<Rightarrow> 16 word list" where
  "interleaved buffer =
     concat (map (\<lambda>i. map (\<lambda>channel. encodeSample (ab_channels buffer ! channel ! i))
                          [0..<ab_numberOfChannels buffer])
                 [0..<ab_length buffer])"

section \<open>The scheduler over a store of objects\<close>

text \<open>
  For the claims about what buildTimelinePlan leaves untouched, the scheduler is modelled
  a second time at the level of JavaScript references. Objects and arrays live in a store
  of cells; an array is a cell that holds a list of references, and a value of object type
  is the address of its cell. The store allocates at \<open>h_next\<close>, upwards. The statements
  of the source that write to the store are the object and array literals (an allocation)
  and \<^verbatim>\<open>push\<close>; the locals \<^verbatim>\<open>videoCursor\<close>, \<^verbatim>\<open>previousKind\<close> and \<^verbatim>\<open>counters\<close> never escape
  the call and stay values. A read through a reference of the wrong type is a TypeError.
\<close>

datatype obj =
  ClipObj ClipAsset
  | SegmentObj AudioSegment
  | ArrayObj "nat list"
  | PlacementObj nat real
  | TalkPlanObj TalkPlan
  | TimelinePlanObj nat nat real

record heap =
  h_cells :: "nat \<Rightarrow> obj option"
  h_next :: nat

datatype thrown = Config error | TypeError

definition alloc :: "obj \<Rightarrow> heap \<Rightarrow> nat \<times> heap" where
  "alloc ob h = (h_next h, h\<lparr>h_cells := (h_cells h)(h_next h \<mapsto> ob), h_next := Suc (h_next h)\<rparr>)"

definition arrayOf :: "heap \<Rightarrow> nat \<Rightarrow> nat list option" where
  "arrayOf h a = (case h_cells h a of Some (ArrayObj xs) \<Rightarrow> Some xs | _ \<Rightarrow> None)"

definition clipOf :: "heap \<Rightarrow> nat \<Rightarrow> ClipAsset option" where
  "clipOf h a = (case h_cells h a of Some (ClipObj c) \<Rightarrow> Some c | _ \<Rightarrow> None)"

definition segmentOf :: "heap \<Rightarrow> nat \<Rightarrow> AudioSegment option" where
  "segmentOf h a = (case h_cells h a of Some (SegmentObj s) \<Rightarrow> Some s | _ \<Rightarrow> None)"

definition push :: "nat \<Rightarrow> nat \<Rightarrow> heap \<Rightarrow> heap option" where
  "push a x h =
     (case arrayOf h a of
        None \<Rightarrow> None
      | Some xs \<Rightarrow> Some (h\<lparr>h_cells := (h_cells h)(a \<mapsto> ArrayObj (xs @ [x]))\<rparr>))"

text \<open>The library object: the addresses of its four arrays.\<close>

record LibraryRefs =
  lr_idle :: nat
  lr_idleToSpeech :: nat
  lr_speechLoop :: nat
  lr_speechToIdle :: nat

fun poolRef :: "LibraryRefs \<Rightarrow> MotionType \<Rightarrow> nat" where
  "poolRef lib Idle = lr_idle lib"
| "poolRef lib IdleToSpeech = lr_idleToSpeech lib"
| "poolRef lib SpeechLoop = lr_speechLoop lib"
| "poolRef lib SpeechToIdle = lr_speechToIdle lib"

text \<open>
  \<^verbatim>\<open>clips.reduce\<close>: the length is read once, before the first call of the reducer; the
  element at index \<open>k\<close> is read when its turn comes. \<open>n\<close> counts the elements left.
\<close>

fun reduceClips :: "LibraryRefs \<Rightarrow> nat \<Rightarrow> nat \<Rightarrow> nat \<Rightarrow> heap \<Rightarrow> (thrown + unit) \<times> heap" where
  "reduceClips acc clipsRef k 0 h = (Inr (), h)"
| "reduceClips acc clipsRef k (Suc n) h =
     (case arrayOf h clipsRef of
        None \<Rightarrow> (Inl TypeError, h)
      | Some cs \<Rightarrow>
          if k < length cs then
            (case clipOf h (cs ! k) of
               None \<Rightarrow> (Inl TypeError, h)
             | Some clip \<Rightarrow>
                 (case push (poolRef acc (clip_type clip)) (cs ! k) h of
                    None \<Rightarrow> (Inl TypeError, h)
                  | Some h' \<Rightarrow> reduceClips acc clipsRef (Suc k) n h'))
          else reduceClips acc clipsRef (Suc k) n h)"

definition groupClipsH :: "nat \<Rightarrow> heap \<Rightarrow> (thrown + LibraryRefs) \<times> heap" where
  "groupClipsH clipsRef h =
     (case arrayOf h clipsRef of
        None \<Rightarrow> (Inl TypeError, h)
      | Some cs \<Rightarrow>
          let (a1, h1) = alloc (ArrayObj []) h;
              (a2, h2) = alloc (ArrayObj []) h1;
              (a3, h3) = alloc (ArrayObj []) h2;
              (a4, h4) = alloc (ArrayObj []) h3;
              acc = \<lparr>lr_idle = a1, lr_idleToSpeech = a2, lr_speechLoop = a3, lr_speechToIdle = a4\<rparr>
          in case reduceClips acc clipsRef 0 (length cs) h4 of
               (Inl e, h') \<Rightarrow> (Inl e, h')
             | (Inr _, h') \<Rightarrow> (Inr acc, h'))"

text \<open>The locals of buildTimelinePlan, with the store.\<close>

record HState =
  hs_heap :: heap
  hs_videoCursor :: real
  hs_previousKind :: SegmentKind
  hs_counters :: "MotionType \<Rightarrow> nat"

definition takeClipH :: "LibraryRefs \<Rightarrow> nat \<Rightarrow> MotionType \<Rightarrow> HState \<Rightarrow> (thrown + nat) \<times> HState" where
  "takeClipH library placementsRef ty s =
     (case arrayOf (hs_heap s) (poolRef library ty) of
        None \<Rightarrow> (Inl TypeError, s)
      | Some list \<Rightarrow>
          if list = [] then (Inl (Config (MissingClipForState ty)), s)
          else
            let (v, counters') = nextIndex (hs_counters s) ty;
                clip = list ! (v mod length list);
                s1 = s\<lparr>hs_counters := counters'\<rparr>;
                (p, h1) = alloc (PlacementObj clip (hs_videoCursor s)) (hs_heap s)
            in case push placementsRef p h1 of
                 None \<Rightarrow> (Inl TypeError, s1\<lparr>hs_heap := h1\<rparr>)
               | Some h2 \<Rightarrow>
                   (case clipOf h2 clip of
                      None \<Rightarrow> (Inl TypeError, s1\<lparr>hs_heap := h2\<rparr>)
                    | Some c \<Rightarrow>
                        (Inr clip,
                         s1\<lparr>hs_heap := h2,
                            hs_videoCursor := hs_videoCursor s + clip_duration c\<rparr>)))"

definition maybeTakeClipH :: "LibraryRefs \<Rightarrow> nat \<Rightarrow> MotionType \<Rightarrow> HState \<Rightarrow> (thrown + unit) \<times> HState" where
  "maybeTakeClipH library placementsRef ty s =
     (case arrayOf (hs_heap s) (poolRef library ty) of
        None \<Rightarrow> (Inl TypeError, s)
      | Some list \<Rightarrow>
          if list = [] then (Inr (), s)
          else case takeClipH library placementsRef ty s of
                 (Inl e, s') \<Rightarrow> (Inl e, s')
               | (Inr _, s') \<Rightarrow> (Inr (), s'))"

partial_function (option) coverLoopH ::
  "LibraryRefs \<Rightarrow> nat \<Rightarrow> nat \<Rightarrow> real \<Rightarrow> HState \<Rightarrow> ((thrown + unit) \<times> HState) option" where
  "coverLoopH library placementsRef segmentRef covered hs =
     (case segmentOf (hs_heap hs) segmentRef of
        None \<Rightarrow> Some (Inl TypeError, hs)
      | Some segment \<Rightarrow>
          if covered + 1 / 100 < seg_duration segment then
            (case takeClipH library placementsRef (coverPool segment) hs of
               (Inl e, hs1) \<Rightarrow> Some (Inl e, hs1)
             | (Inr clip, hs1) \<Rightarrow>
                 (case clipOf (hs_heap hs1) clip of
                    None \<Rightarrow> Some (Inl TypeError, hs1)
                  | Some c \<Rightarrow>
                      coverLoopH library placementsRef segmentRef (covered + clip_duration c) hs1))
          else Some (Inr (), hs))"

declare coverLoopH.simps [code]

text \<open>
  \<^verbatim>\<open>segments[i + 1]\<close>, read where the source reads it: \<^const>\<open>None\<close> is undefined.
\<close>

definition nextSegmentH :: "heap \<Rightarrow> nat \<Rightarrow> nat \<Rightarrow> thrown + AudioSegment option" where
  "nextSegmentH h segmentsRef i =
     (case arrayOf h segmentsRef of
        None \<Rightarrow> Inl TypeError
      | Some segs \<Rightarrow>
          if i + 1 < length segs then
            (case segmentOf h (segs ! (i + 1)) of
               None \<Rightarrow> Inl TypeError
             | Some nextSegment \<Rightarrow> Inr (Some nextSegment))
          else Inr None)"

text \<open>The body of the for loop, for the segment reference \<^verbatim>\<open>segments[i]\<close>.\<close>

definition processSegmentH ::
  "LibraryRefs \<Rightarrow> nat \<Rightarrow> nat \<Rightarrow> nat \<Rightarrow> nat \<Rightarrow> nat \<Rightarrow> HState \<Rightarrow> ((thrown + unit) \<times> HState) option" where
  "processSegmentH library placementsRef talkPlansRef segmentsRef i segmentRef s =
     (case segmentOf (hs_heap s) segmentRef of
        None \<Rightarrow> Some (Inl TypeError, s)
      | Some segment \<Rightarrow>
          if seg_kind segment = IdleSeg then
            (case coverLoopH library placementsRef segmentRef 0 s of
               None \<Rightarrow> None
             | Some (Inl e, s1) \<Rightarrow> Some (Inl e, s1)
             | Some (Inr _, s1) \<Rightarrow> Some (Inr (), s1\<lparr>hs_previousKind := IdleSeg\<rparr>))
          else
            (case (if hs_previousKind s = IdleSeg
                   then maybeTakeClipH library placementsRef IdleToSpeech s else (Inr (), s)) of
               (Inl e, s1) \<Rightarrow> Some (Inl e, s1)
             | (Inr _, s1) \<Rightarrow>
                 (let segmentVideoStart = hs_videoCursor s1 in
                  case coverLoopH library placementsRef segmentRef 0 s1 of
                    None \<Rightarrow> None
                  | Some (Inl e, s2) \<Rightarrow> Some (Inl e, s2)
                  | Some (Inr _, s2) \<Rightarrow>
                      (case segmentOf (hs_heap s2) segmentRef of
                         None \<Rightarrow> Some (Inl TypeError, s2)
                       | Some segment2 \<Rightarrow>
                          (let (t, h3) = alloc (TalkPlanObj
                                  \<lparr>segmentId = seg_id segment2,
                                    videoStart = segmentVideoStart,
                                    videoEnd = hs_videoCursor s2,
                                    audioStart = seg_start segment2,
                                    audioDuration = seg_duration segment2\<rparr>) (hs_heap s2)
                           in case push talkPlansRef t h3 of
                                None \<Rightarrow> Some (Inl TypeError, s2\<lparr>hs_heap := h3\<rparr>)
                              | Some h4 \<Rightarrow>
                                 (let s4 = s2\<lparr>hs_heap := h4\<rparr> in
                                  case nextSegmentH h4 segmentsRef i of
                                    Inl e \<Rightarrow> Some (Inl e, s4)
                                  | Inr nextSegment \<Rightarrow>
                                      if nextSegment = None
                                         \<or> map_option seg_kind nextSegment = Some IdleSeg then
                                        (case maybeTakeClipH library placementsRef SpeechToIdle s4 of
                                           (Inl e, s5) \<Rightarrow> Some (Inl e, s5)
                                         | (Inr _, s5) \<Rightarrow>
                                             Some (Inr (), s5\<lparr>hs_previousKind := IdleSeg\<rparr>))
                                      else Some (Inr (), s4\<lparr>hs_previousKind := TalkSeg\<rparr>)))))))"

text \<open>
  The for loop: \<^verbatim>\<open>segments.length\<close> and \<^verbatim>\<open>segments[i]\<close> are read from the store at every
  iteration.
\<close>

partial_function (option) forSegmentsH ::
  "LibraryRefs \<Rightarrow> nat \<Rightarrow> nat \<Rightarrow> nat \<Rightarrow> nat \<Rightarrow> HState \<Rightarrow> ((thrown + unit) \<times> HState) option" where
  "forSegmentsH library placementsRef talkPlansRef segmentsRef i hs =
     (case arrayOf (hs_heap hs) segmentsRef of
        None \<Rightarrow> Some (Inl TypeError, hs)
      | Some segs \<Rightarrow>
          if i < length segs then
            (case processSegmentH library placementsRef talkPlansRef segmentsRef i (segs ! i) hs of
               None \<Rightarrow> None
             | Some (Inl e, hs') \<Rightarrow> Some (Inl e, hs')
             | Some (Inr _, hs') \<Rightarrow>
                 forSegmentsH library placementsRef talkPlansRef segmentsRef (i + 1) hs')
          else Some (Inr (), hs))"

declare forSegmentsH.simps [code]

definition buildTimelinePlanH :: "nat \<Rightarrow> nat \<Rightarrow> heap \<Rightarrow> ((thrown + nat) \<times> heap) option" where
  "buildTimelinePlanH segmentsRef clipsRef h =
     (case groupClipsH clipsRef h of
        (Inl e, h0) \<Rightarrow> Some (Inl e, h0)
      | (Inr library, h0) \<Rightarrow>
          (case (arrayOf h0 (lr_idle library), arrayOf h0 (lr_speechLoop library)) of
             (Some idles, Some loops) \<Rightarrow>
               if idles = [] then Some (Inl (Config IdleClipsRequired), h0)
               else if loops = [] then Some (Inl (Config SpeechLoopClipsRequired), h0)
               else
                 let (placementsRef, h1) = alloc (ArrayObj []) h0;
                     (talkPlansRef, h2) = alloc (ArrayObj []) h1;
                     s = \<lparr>hs_heap = h2, hs_videoCursor = 0, hs_previousKind = IdleSeg,
                          hs_counters = (\<lambda>_. 0)\<rparr>
                 in (case forSegmentsH library placementsRef talkPlansRef segmentsRef 0 s of
                       None \<Rightarrow> None
                     | Some (Inl e, s') \<Rightarrow> Some (Inl e, hs_heap s')
                     | Some (Inr _, s') \<Rightarrow>
                         (let (r, h3) = alloc (TimelinePlanObj placementsRef talkPlansRef
                                                 (hs_videoCursor s')) (hs_heap s')
                          in Some (Inr r, h3)))
           | _ \<Rightarrow> Some (Inl TypeError, h0)))"

section \<open>The timeline scheduler in double arithmetic\<close>

text \<open>
  buildTimelinePlan once more, now with every addition rounded as the engine rounds it:
  \<^verbatim>\<open>videoCursor += clip.duration\<close>, \<^verbatim>\<open>covered += clip.duration\<close> and the sum in the
  loop guard \<^verbatim>\<open>covered + 1e-2 < segment.duration\<close>, whose literal is the double nearest to
  one hundredth. Everything else is as in the scheduler above. With rounded sums the
  coverage loop can stall on a clip that is negligible against the running sum, so its
  result is again an option.
\<close>

definition takeClipD :: "ClipLibrary \<Rightarrow> MotionType \<Rightarrow> SchedState \<Rightarrow> error + (ClipAsset \<times> SchedState)" where
  "takeClipD library ty st =
     (let list = pool library ty in
      if list = [] then Inl (MissingClipForState ty)
      else
        let (v, counters') = nextIndex (st_counters st) ty;
            clip = list ! (v mod length list)
        in Inr (clip,
             st\<lparr>st_placements := st_placements st @ [\<lparr>pl_clip = clip, pl_start = st_videoCursor st\<rparr>],
                st_videoCursor := double (st_videoCursor st + clip_duration clip),
                st_counters := counters'\<rparr>))"

definition maybeTakeClipD :: "ClipLibrary \<Rightarrow> MotionType \<Rightarrow> SchedState \<Rightarrow> error + SchedState" where
  "maybeTakeClipD library ty st =
     (if pool library ty = [] then Inr st
      else case takeClipD library ty st of Inl e \<Rightarrow> Inl e | Inr (clip, st') \<Rightarrow> Inr st')"

partial_function (option) coverLoopD ::
  "ClipLibrary \<Rightarrow> AudioSegment \<Rightarrow> real \<Rightarrow> SchedState \<Rightarrow> (error + SchedState) option" where
  "coverLoopD library segment covered st =
     (if double (covered + double (1 / 100)) < seg_duration segment then
        (case takeClipD library (coverPool segment) st of
           Inl e \<Rightarrow> Some (Inl e)
         | Inr (clip, st') \<Rightarrow> coverLoopD library segment (double (covered + clip_duration clip)) st')
      else Some (Inr st))"

declare coverLoopD.simps [code]

definition coverSegmentD :: "ClipLibrary \<Rightarrow> AudioSegment \<Rightarrow> SchedState \<Rightarrow> (error + SchedState) option" where
  "coverSegmentD library segment st = coverLoopD library segment 0 st"

definition processSegmentD ::
  "ClipLibrary \<Rightarrow> AudioSegment \<Rightarrow> AudioSegment option \<Rightarrow> SchedState \<Rightarrow> (error + SchedState) option" where
  "processSegmentD library segment nextSegment st =
     (if seg_kind segment = IdleSeg then
        (case coverSegmentD library segment st of
           None \<Rightarrow> None
         | Some (Inl e) \<Rightarrow> Some (Inl e)
         | Some (Inr st1) \<Rightarrow> Some (Inr (st1\<lparr>st_previousKind := IdleSeg\<rparr>)))
      else
        (case (if st_previousKind st = IdleSeg then maybeTakeClipD library IdleToSpeech st else Inr st) of
           Inl e \<Rightarrow> Some (Inl e)
         | Inr st1 \<Rightarrow>
            (let segmentVideoStart = st_videoCursor st1 in
             case coverSegmentD library segment st1 of
               None \<Rightarrow> None
             | Some (Inl e) \<Rightarrow> Some (Inl e)
             | Some (Inr st2) \<Rightarrow>
                (let st3 = st2\<lparr>st_talkPlans := st_talkPlans st2 @
                       [\<lparr>segmentId = seg_id segment,
                         videoStart = segmentVideoStart,
                         videoEnd = st_videoCursor st2,
                         audioStart = seg_start segment,
                         audioDuration = seg_duration segment\<rparr>]\<rparr>
                 in if nextSegment = None \<or> map_option seg_kind nextSegment = Some IdleSeg then
                      (case maybeTakeClipD library SpeechToIdle st3 of
                         Inl e \<Rightarrow> Some (Inl e)
                       | Inr st4 \<Rightarrow> Some (Inr (st4\<lparr>st_previousKind := IdleSeg\<rparr>)))
                    else Some (Inr (st3\<lparr>st_previousKind := TalkSeg\<rparr>))))))"

fun processSegmentsD ::
  "ClipLibrary \<Rightarrow> AudioSegment list \<Rightarrow> SchedState \<Rightarrow> (error + SchedState) option" where
  "processSegmentsD library [] st = Some (Inr st)"
| "processSegmentsD library (segment # rest) st =
     (case processSegmentD library segment (case rest of [] \<Rightarrow> None | n # _ \<Rightarrow> Some n) st of
        None \<Rightarrow> None
      | Some (Inl e) \<Rightarrow> Some (Inl e)
      | Some (Inr st') \<Rightarrow> processSegmentsD library rest st')"

definition buildTimelinePlanD :: "AudioSegment list \<Rightarrow> ClipAsset list \<Rightarrow> (error + TimelinePlan) option" where
  "buildTimelinePlanD segments clips =
     (let library = groupClips clips in
      if lib_idle library = [] then Some (Inl IdleClipsRequired)
      else if lib_speechLoop library = [] then Some (Inl SpeechLoopClipsRequired)
      else
        (case processSegmentsD library segments initialState of
           None \<Rightarrow> None
         | Some (Inl e) \<Rightarrow> Some (Inl e)
         | Some (Inr st) \<Rightarrow>
             Some (Inr \<lparr>placements = st_placements st,
                        talkPlans = st_talkPlans st,
                        totalDuration = st_videoCursor st\<rparr>)))"

section \<open>Vocabulary of the scheduler properties\<close>

text \<open>The summed clip durations of a run of placements.\<close>

definition durations :: "TimelinePlacement list \<Rightarrow> real" where
  "durations ps = sum_list (map (\<lambda>p. clip_duration (pl_clip p)) ps)"

text \<open>
  A run of placements that starts at \<open>t\<close> and in which every placement begins where the
  one before it ends, its whole clip later: no clip is cut short or split.
\<close>

fun abutting :: "real \<Rightarrow> TimelinePlacement list \<Rightarrow> bool" where
  "abutting t [] = True"
| "abutting t (p # ps) = (pl_start p = t \<and> abutting (t + clip_duration (pl_clip p)) ps)"

text \<open>
  What one run of the coverage loop does to the state: it appends the placements \<open>new\<close>,
  all from the segment's pool, advances the cursor by their durations, and stops as soon
  as the covered time is within 0.01 of the segment's duration.
\<close>

definition covers ::
  "ClipLibrary \<Rightarrow> AudioSegment \<Rightarrow> real \<Rightarrow> SchedState \<Rightarrow> SchedState \<Rightarrow> TimelinePlacement list \<Rightarrow> bool" where
  "covers library segment covered st st' new \<longleftrightarrow>
     st_placements st' = st_placements st @ new \<and>
     st_videoCursor st' = st_videoCursor st + durations new \<and>
     st_talkPlans st' = st_talkPlans st \<and>
     st_previousKind st' = st_previousKind st \<and>
     pl_clip ` set new \<subseteq> set (pool library (coverPool segment)) \<and>
     abutting (st_videoCursor st) new \<and>
     seg_duration segment \<le> covered + durations new + 1 / 100 \<and>
     (if new = [] then True
      else covered + durations new - clip_duration (pl_clip (last new)) + 1 / 100
             < seg_duration segment)"

text \<open>
  What one iteration of the for loop does to the state: it appends the placements
  \<open>pre\<close> (a leading transition), \<open>mid\<close> (the coverage) and \<open>post\<close> (a trailing
  transition), all taken from the library, and, for a talk segment, one talk plan whose
  video span is the span of \<open>mid\<close>.
\<close>

definition newTalkPlans :: "AudioSegment \<Rightarrow> real \<Rightarrow> real \<Rightarrow> TalkPlan list" where
  "newTalkPlans segment vstart vend =
     (if seg_kind segment = TalkSeg then
        [\<lparr>segmentId = seg_id segment, videoStart = vstart, videoEnd = vend,
          audioStart = seg_start segment, audioDuration = seg_duration segment\<rparr>]
      else [])"

definition advances ::
  "ClipLibrary \<Rightarrow> AudioSegment \<Rightarrow> SchedState \<Rightarrow> SchedState \<Rightarrow>
     TimelinePlacement list \<Rightarrow> TimelinePlacement list \<Rightarrow> TimelinePlacement list \<Rightarrow> bool" where
  "advances library segment st st' pre mid post \<longleftrightarrow>
     st_placements st' = st_placements st @ pre @ mid @ post \<and>
     st_videoCursor st' = st_videoCursor st + durations pre + durations mid + durations post \<and>
     pl_clip ` set (pre @ mid @ post) \<subseteq> (\<Union>ty. set (pool library ty)) \<and>
     seg_duration segment \<le> durations mid + 1 / 100 \<and>
     st_talkPlans st' = st_talkPlans st @
       newTalkPlans segment (st_videoCursor st + durations pre)
         (st_videoCursor st + durations pre + durations mid)"


definition placedFrom :: "ClipLibrary \<Rightarrow> SchedState \<Rightarrow> bool" where
  "placedFrom library st \<longleftrightarrow> pl_clip ` set (st_placements st) \<subseteq> (\<Union>ty. set (pool library ty))"


section \<open>Vocabulary of the scheduler in double arithmetic\<close>

text \<open>
  The value of a running sum that starts at \<open>t\<close> after the clips of the placements
  \<open>ps\<close> have been added to it one by one, each sum rounded: the cursor after these
  placements when \<open>t\<close> is the cursor before them, and the variable \<^verbatim>\<open>covered\<close> of the
  coverage loop when \<open>t\<close> is 0.
\<close>

definition advance :: "real \<Rightarrow> TimelinePlacement list \<Rightarrow> real" where
  "advance t ps = foldl (\<lambda>v p. double (v + clip_duration (pl_clip p))) t ps"

text \<open>
  A run of placements that starts at \<open>t\<close> and in which every placement begins at the
  cursor that the placements before it have left: whole clips, one after the other.
\<close>

fun abuttingD :: "real \<Rightarrow> TimelinePlacement list \<Rightarrow> bool" where
  "abuttingD t [] = True"
| "abuttingD t (p # ps) = (pl_start p = t \<and> abuttingD (double (t + clip_duration (pl_clip p))) ps)"

text \<open>
  What one run of the rounded coverage loop does to the state: it appends the placements
  \<open>new\<close>, all from the segment's pool, moves the cursor over them, and stops at the
  first running sum whose guard fails.
\<close>

definition coversD ::
  "ClipLibrary \<Rightarrow> AudioSegment \<Rightarrow> real \<Rightarrow> SchedState \<Rightarrow> SchedState \<Rightarrow> TimelinePlacement list \<Rightarrow> bool" where
  "coversD library segment covered st st' new \<longleftrightarrow>
     st_placements st' = st_placements st @ new \<and>
     st_videoCursor st' = advance (st_videoCursor st) new \<and>
     st_talkPlans st' = st_talkPlans st \<and>
     st_previousKind st' = st_previousKind st \<and>
     pl_clip ` set new \<subseteq> set (pool library (coverPool segment)) \<and>
     abuttingD (st_videoCursor st) new \<and>
     seg_duration segment \<le> double (advance covered new + double (1 / 100)) \<and>
     (new = [] \<or> double (advance covered (butlast new) + double (1 / 100)) < seg_duration segment)"

definition lastDuration :: "TimelinePlacement list \<Rightarrow> real" where
  "lastDuration ps = clip_duration (pl_clip (last ps))"

section \<open>Vocabulary of the segmenter properties\<close>

text \<open>
  The test under which mergeStep folds a segment into the one before it, and the lists
  in which no two neighbours pass it.
\<close>

definition mergeable :: "real \<Rightarrow> AudioSegment \<Rightarrow> AudioSegment \<Rightarrow> bool" where
  "mergeable gapTolerance prev segment \<longleftrightarrow>
     seg_kind segment = TalkSeg \<and> seg_kind prev = TalkSeg \<and>
     seg_start segment - (seg_start prev + seg_duration prev) \<le> gapTolerance + 1 / 1000000"

definition settled :: "real \<Rightarrow> AudioSegment list \<Rightarrow> bool" where
  "settled gapTolerance segments = successively (\<lambda>a b. \<not> mergeable gapTolerance a b) segments"

definition segEnd :: "AudioSegment \<Rightarrow> real" where
  "segEnd s = seg_start s + seg_duration s"




text \<open>How the open segment of the scan continues the segments already emitted.\<close>

definition linked :: "real \<Rightarrow> ScanState \<Rightarrow> bool" where
  "linked g sc \<longleftrightarrow>
     (if sc_segments sc = [] then
        (if sc_currentKind sc = IdleSeg then sc_currentStart sc = 0
         else 0 \<le> sc_currentStart sc \<and> sc_currentStart sc \<le> MIN_SEGMENT_DURATION_SEC)
      else
        (let l = last (sc_segments sc) in
         if sc_currentKind sc = IdleSeg then seg_kind l = TalkSeg \<and> segEnd l = sc_currentStart sc
         else seg_kind l = IdleSeg \<and> segEnd l = sc_currentStart sc \<or>
              seg_kind l = TalkSeg \<and> segEnd l \<le> sc_currentStart sc \<and> sc_currentStart sc \<le> segEnd l + g))"










section \<open>Vocabulary of the store properties\<close>

text \<open>
  \<open>frame n h h'\<close>: the cells below \<open>n\<close> are the same in \<open>h'\<close> as in \<open>h\<close>, and the
  store has only grown.
\<close>

definition frame :: "nat \<Rightarrow> heap \<Rightarrow> heap \<Rightarrow> bool" where
  "frame n h h' \<longleftrightarrow> (\<forall>a < n. h_cells h' a = h_cells h a) \<and> h_next h \<le> h_next h'"

text \<open>The arrays of the library are allocated by the call, apart, and hold references from \<open>C\<close>.\<close>

definition libraryInv :: "nat \<Rightarrow> nat set \<Rightarrow> LibraryRefs \<Rightarrow> heap \<Rightarrow> bool" where
  "libraryInv n C lib h \<longleftrightarrow>
     (\<forall>ty. n \<le> poolRef lib ty \<and> poolRef lib ty < h_next h \<and>
           (\<exists>xs. arrayOf h (poolRef lib ty) = Some xs \<and> set xs \<subseteq> C)) \<and>
     distinct [lr_idle lib, lr_idleToSpeech lib, lr_speechLoop lib, lr_speechToIdle lib]"

text \<open>
  The placements array is allocated by the call and holds references to placement
  objects whose clip is a reference from \<open>C\<close>; the talk plans array is allocated by the
  call too.
\<close>

definition outputInv :: "nat \<Rightarrow> nat set \<Rightarrow> LibraryRefs \<Rightarrow> nat \<Rightarrow> nat \<Rightarrow> heap \<Rightarrow> bool" where
  "outputInv n C lib placementsRef talkPlansRef h \<longleftrightarrow>
     n \<le> placementsRef \<and> placementsRef < h_next h \<and>
     n \<le> talkPlansRef \<and> talkPlansRef < h_next h \<and> placementsRef \<noteq> talkPlansRef \<and>
     (\<forall>ty. poolRef lib ty \<noteq> placementsRef \<and> poolRef lib ty \<noteq> talkPlansRef) \<and>
     (\<exists>ps. arrayOf h placementsRef = Some ps \<and>
        (\<forall>p \<in> set ps. p < h_next h \<and> (\<exists>c st. h_cells h p = Some (PlacementObj c st) \<and> c \<in> C)))"

definition schedInv :: "nat \<Rightarrow> nat set \<Rightarrow> LibraryRefs \<Rightarrow> nat \<Rightarrow> nat \<Rightarrow> heap \<Rightarrow> heap \<Rightarrow> bool" where
  "schedInv n C lib placementsRef talkPlansRef h0 h \<longleftrightarrow>
     frame n h0 h \<and> libraryInv n C lib h \<and> outputInv n C lib placementsRef talkPlansRef h"

section \<open>Concrete inputs\<close>

text \<open>The end-to-end scenario: one clip per pool and three segments.\<close>

definition scenarioClips :: "ClipAsset list" where
  "scenarioClips =
     [\<lparr>clip_id = ''idle'', clip_type = Idle, clip_duration = 1\<rparr>,
      \<lparr>clip_id = ''loop'', clip_type = SpeechLoop, clip_duration = 4 / 10\<rparr>,
      \<lparr>clip_id = ''in'', clip_type = IdleToSpeech, clip_duration = 2 / 10\<rparr>,
      \<lparr>clip_id = ''out'', clip_type = SpeechToIdle, clip_duration = 2 / 10\<rparr>]"

definition scenarioSegments :: "AudioSegment list" where
  "scenarioSegments =
     [\<lparr>seg_id = ''idle-0'', seg_kind = IdleSeg, seg_start = 0, seg_duration = 2\<rparr>,
      \<lparr>seg_id = ''talk-1'', seg_kind = TalkSeg, seg_start = 2, seg_duration = 1\<rparr>,
      \<lparr>seg_id = ''idle-2'', seg_kind = IdleSeg, seg_start = 3, seg_duration = 1\<rparr>]"














text \<open>An empty one-channel buffer at 8010 Hz, where 0.08 s is 640.8 samples.\<close>

definition oddRateBuffer :: AudioBuffer where
  "oddRateBuffer = \<lparr>ab_sampleRate = 8010, ab_length = 0, ab_channels = [[]]\<rparr>"


text \<open>The buffer of the header test: one channel, 8000 Hz, samples 0.0, 1.0, -1.0, 0.5.\<close>

definition wavExample :: AudioBuffer where
  "wavExample = \<lparr>ab_sampleRate = 8000, ab_length = 4, ab_channels = [[0, 1, - 1, 1 / 2]]\<rparr>"

text \<open>The 52 bytes that the encoder produces for it.\<close>

definition wavExampleBytes :: "byte list" where
  "wavExampleBytes =
     [82, 73, 70, 70, 44, 0, 0, 0, 87, 65, 86, 69, 102, 109, 116, 32, 16, 0, 0, 0,
      1, 0, 1, 0, 64, 31, 0, 0, 128, 62, 0, 0, 2, 0, 16, 0, 100, 97, 116, 97, 8, 0, 0, 0,
      0, 0, 255, 127, 0, 128, 255, 63]"

text \<open>A store that holds the clips and segments of the end-to-end scenario.\<close>

definition storeOf :: "obj list \<Rightarrow> heap" where
  "storeOf obs = \<lparr>h_cells = (\<lambda>a. if a < length obs then Some (obs ! a) else None), h_next = length obs\<rparr>"

definition scenarioStore :: heap where
  "scenarioStore =
     storeOf (map ClipObj scenarioClips @ map SegmentObj scenarioSegments
              @ [ArrayObj [0, 1, 2, 3], ArrayObj [4, 5, 6]])"

text \<open>
  The call of the end-to-end scenario on that store: the clips array is at address 7,
  the segments array at address 8.
\<close>

definition scenarioRun :: "((thrown + nat) \<times> heap) option" where
  "scenarioRun = buildTimelinePlanH 8 7 scenarioStore"

text \<open>
  An idle clip of 0.05 s and a speechLoop clip of 0.12 s, for an idle segment of 0.05 s
  followed by a talk segment of 0.13 s: every number is the double nearest to the decimal.
\<close>

definition roundingClips :: "ClipAsset list" where
  "roundingClips =
     [\<lparr>clip_id = ''idle'', clip_type = Idle, clip_duration = double (1 / 20)\<rparr>,
      \<lparr>clip_id = ''loop'', clip_type = SpeechLoop, clip_duration = double (3 / 25)\<rparr>]"

definition roundingSegments :: "AudioSegment list" where
  "roundingSegments =
     [\<lparr>seg_id = ''idle-0'', seg_kind = IdleSeg, seg_start = 0, seg_duration = double (1 / 20)\<rparr>,
      \<lparr>seg_id = ''talk-1'', seg_kind = TalkSeg, seg_start = double (1 / 20),
        seg_duration = double (13 / 100)\<rparr>]"

section \<open>Properties of the rounding\<close>

text \<open>The exponent is computed by halving and doubling.\<close>

lemma powr_powi: "2 powr real_of_int e = 2 powi e"
  by (simp add: powr_real_of_int')

lemma pow2_add: "(2::real) powi (a + b) = 2 powi a * 2 powi b"
  by (simp add: power_int_add)

lemma pow2_diff: "(2::real) powi (a - b) = 2 powi a / 2 powi b"
  by (simp add: power_int_diff)

lemma expo_bounds:
  assumes "x \<noteq> 0"
  shows "2 powi expo x \<le> \<bar>x\<bar>" and "\<bar>x\<bar> < 2 powi (expo x + 1)"
proof -
  from assms have pos: "0 < \<bar>x\<bar>" by simp
  have "\<lfloor>log 2 \<bar>x\<bar>\<rfloor> = expo x" using assms by (simp add: expo_def)
  then have "2 powi (expo x) \<le> \<bar>x\<bar> \<and> \<bar>x\<bar> < 2 powi (expo x + 1)"
    using floor_log_eq_powr_iff [OF pos, of 2 "expo x", unfolded powr_powi] by simp
  then show "2 powi expo x \<le> \<bar>x\<bar>" and "\<bar>x\<bar> < 2 powi (expo x + 1)"
    by simp_all
qed

lemma expo_unique:
  assumes "2 powi e \<le> \<bar>x\<bar>" and "\<bar>x\<bar> < 2 powi (e + 1)"
  shows "expo x = e"
proof -
  have "(0::real) < 2 powi e" by (simp add: zero_less_power_int)
  with assms(1) have pos: "0 < \<bar>x\<bar>" by linarith
  then have x: "x \<noteq> 0" by simp
  from assms have "\<lfloor>log 2 \<bar>x\<bar>\<rfloor> = e"
    using floor_log_eq_powr_iff [OF pos, of 2 e, unfolded powr_powi] by simp
  with x show ?thesis by (simp add: expo_def)
qed

lemma pow2_Suc: "(2::real) powi (e + 1) = 2 * 2 powi e"
  by (simp add: power_int_add)

lemma pow2_pos [simp]: "(0::real) < 2 powi e"
  by (simp add: zero_less_power_int)

lemma expo_code [code]:
  "expo x = (if x = 0 then 0 else if 2 \<le> \<bar>x\<bar> then expo (x / 2) + 1
             else if \<bar>x\<bar> < 1 then expo (2 * x) - 1 else 0)"
proof (cases "x = 0")
  case True
  then show ?thesis by (simp add: expo_def)
next
  case x: False
  show ?thesis
  proof (cases "2 \<le> \<bar>x\<bar>")
    case True
    from x have h: "x / 2 \<noteq> 0" by simp
    from expo_bounds [OF h] have "2 powi (expo (x / 2) + 1) \<le> \<bar>x\<bar>"
      and "\<bar>x\<bar> < 2 powi (expo (x / 2) + 1 + 1)"
      by (simp_all add: pow2_add)
    then have "expo x = expo (x / 2) + 1" by (rule expo_unique)
    with x True show ?thesis by simp
  next
    case ge: False
    show ?thesis
    proof (cases "\<bar>x\<bar> < 1")
      case True
      from x have h: "2 * x \<noteq> 0" by simp
      define e where "e = expo (2 * x)"
      from expo_bounds [OF h] have a: "2 powi e \<le> 2 * \<bar>x\<bar>" "2 * \<bar>x\<bar> < 2 * 2 powi e"
        by (simp_all add: abs_mult e_def pow2_Suc)
      have b: "(2::real) powi (e - 1) = 2 powi e / 2" by (simp add: pow2_diff)
      have c: "(2::real) powi (e - 1 + 1) = 2 powi e" by simp
      have "2 powi (e - 1) \<le> \<bar>x\<bar>" using a b by linarith
      moreover have "\<bar>x\<bar> < 2 powi (e - 1 + 1)" unfolding c using a by linarith
      ultimately have "expo x = e - 1" by (rule expo_unique)
      with x ge True show ?thesis by (simp add: e_def)
    next
      case False
      with ge have "2 powi 0 \<le> \<bar>x\<bar>" and "\<bar>x\<bar> < 2 powi (0 + 1)" by simp_all
      then have "expo x = 0" by (rule expo_unique)
      with x ge False show ?thesis by simp
    qed
  qed
qed

lemma roundEven_error: "\<bar>of_int (roundEven y) - y\<bar> \<le> 1 / 2"
  unfolding roundEven_def Let_def by (simp; linarith)

lemma roundEven_range: "roundEven y = \<lfloor>y\<rfloor> \<or> roundEven y = \<lfloor>y\<rfloor> + 1"
  by (simp add: roundEven_def Let_def)

lemma roundEven_of_int [simp]: "roundEven (of_int n) = n"
  by (simp add: roundEven_def)

lemma roundEven_zero [simp]: "roundEven 0 = 0"
  using roundEven_of_int [of 0] by simp

lemma roundEven_mono:
  assumes "y \<le> z"
  shows "roundEven y \<le> roundEven z"
proof (cases "\<lfloor>y\<rfloor> = \<lfloor>z\<rfloor>")
  case True
  with assms show ?thesis by (auto simp: roundEven_def Let_def)
next
  case False
  with assms have lt: "\<lfloor>y\<rfloor> + 1 \<le> \<lfloor>z\<rfloor>" using floor_mono [OF assms] by linarith
  have "roundEven y \<le> \<lfloor>y\<rfloor> + 1" using roundEven_range [of y] by auto
  moreover have "\<lfloor>z\<rfloor> \<le> roundEven z" using roundEven_range [of z] by auto
  ultimately show ?thesis using lt by linarith
qed

lemma roundEven_ge: "of_int n \<le> y \<Longrightarrow> n \<le> roundEven y"
  using roundEven_mono [of "of_int n" y] by simp

lemma roundEven_le: "y \<le> of_int n \<Longrightarrow> roundEven y \<le> n"
  using roundEven_mono [of y "of_int n"] by simp


lemma pow2_nat: "0 \<le> k \<Longrightarrow> (2::real) powi k = of_int (2 ^ nat k)"
  by (simp add: power_int_def)

lemma pow2_ge1: "0 \<le> k \<Longrightarrow> (1::real) \<le> 2 powi k"
  by (simp add: one_le_power_int)

lemma pow2_mono: "a \<le> b \<Longrightarrow> (2::real) powi a \<le> 2 powi b"
proof -
  assume "a \<le> b"
  then have "(1::real) \<le> 2 powi (b - a)" by (simp add: pow2_ge1)
  then have "(2::real) powi a * 1 \<le> 2 powi a * 2 powi (b - a)" by (intro mult_left_mono) simp_all
  also have "\<dots> = 2 powi b" by (simp add: pow2_add [symmetric])
  finally show ?thesis by simp
qed

lemma pow2_less_exp: "(2::real) powi a < 2 powi b \<Longrightarrow> a < b"
  using pow2_mono [of b a] by (cases "a < b") auto

lemma pow2_le_less_exp: "(2::real) powi a \<le> x \<Longrightarrow> x < 2 powi b \<Longrightarrow> a < b"
  by (rule pow2_less_exp) linarith

lemma double_zero [simp]: "double 0 = 0"
  by (simp add: double_def)

lemma double_error: "\<bar>double x - x\<bar> \<le> 2 powi ulpExp x / 2"
proof -
  let ?p = "2 powi ulpExp x :: real"
  have "double x - x = (of_int (roundEven (x / ?p)) - x / ?p) * ?p"
    by (simp add: double_def field_simps)
  then have "\<bar>double x - x\<bar> = \<bar>of_int (roundEven (x / ?p)) - x / ?p\<bar> * ?p"
    by (simp add: abs_mult)
  also have "\<dots> \<le> 1 / 2 * ?p" by (intro mult_right_mono roundEven_error) simp
  finally show ?thesis by simp
qed

lemma ulpExp_ge: "- 1074 \<le> ulpExp x" "expo x - 52 \<le> ulpExp x"
  by (simp_all add: ulpExp_def)

lemma ulpExp_normal:
  assumes "2 powi (- 1022) \<le> \<bar>x\<bar>"
  shows "ulpExp x = expo x - 52"
proof -
  have "(0::real) < 2 powi (- 1022)" by (rule pow2_pos)
  with assms have x: "x \<noteq> 0" by auto
  from assms expo_bounds(2) [OF x] have "- 1022 < expo x + 1" by (rule pow2_le_less_exp)
  then show ?thesis by (simp add: ulpExp_def)
qed

lemma pow2_53: "(2::real) powi (e - 52) / 2 = 2 powi e / 2 ^ 53"
  by (simp add: pow2_diff)

lemma double_rel:
  assumes "2 powi (- 1022) \<le> \<bar>x\<bar>"
  shows "\<bar>double x - x\<bar> \<le> \<bar>x\<bar> / 2 ^ 53"
proof -
  have "(0::real) < 2 powi (- 1022)" by (rule pow2_pos)
  with assms have x: "x \<noteq> 0" by auto
  have "\<bar>double x - x\<bar> \<le> 2 powi (expo x - 52) / 2"
    using double_error [of x] by (simp only: ulpExp_normal [OF assms])
  also have "\<dots> = 2 powi expo x / 2 ^ 53" by (rule pow2_53)
  also have "\<dots> \<le> \<bar>x\<bar> / 2 ^ 53" using expo_bounds(1) [OF x] by (simp add: divide_right_mono)
  finally show ?thesis .
qed

lemma double_nonneg: "0 \<le> x \<Longrightarrow> 0 \<le> double x"
  unfolding double_def by (intro mult_nonneg_nonneg) (simp_all add: roundEven_ge)

lemma double_nonpos: "x \<le> 0 \<Longrightarrow> double x \<le> 0"
proof -
  assume "x \<le> 0"
  then have "x / 2 powi ulpExp x \<le> of_int 0" by (simp add: divide_le_0_iff)
  then have "roundEven (x / 2 powi ulpExp x) \<le> 0" by (rule roundEven_le)
  then show ?thesis unfolding double_def by (simp add: mult_le_0_iff)
qed

text \<open>The magnitude of a rounded value is at least the power of two below the argument.\<close>

lemma double_ge_pow2:
  assumes "2 powi k \<le> x" and "ulpExp x \<le> k"
  shows "2 powi k \<le> double x"
proof -
  let ?e = "ulpExp x"
  have "(2::real) powi (k - ?e) = 2 powi k / 2 powi ?e" by (rule pow2_diff)
  also have "\<dots> \<le> x / 2 powi ?e" using assms(1) by (simp add: divide_right_mono)
  finally have "of_int (2 ^ nat (k - ?e)) \<le> x / 2 powi ?e"
    using assms(2) by (simp add: pow2_nat)
  then have "2 ^ nat (k - ?e) \<le> roundEven (x / 2 powi ?e)" by (rule roundEven_ge)
  then have "(of_int (2 ^ nat (k - ?e)) :: real) \<le> of_int (roundEven (x / 2 powi ?e))"
    by (simp only: of_int_le_iff)
  then have "(2::real) powi (k - ?e) \<le> of_int (roundEven (x / 2 powi ?e))"
    using assms(2) by (simp add: pow2_nat)
  then have "(2::real) powi (k - ?e) * 2 powi ?e \<le> of_int (roundEven (x / 2 powi ?e)) * 2 powi ?e"
    by (intro mult_right_mono) simp_all
  then show ?thesis by (simp add: double_def pow2_add [symmetric])
qed

lemma double_le_pow2:
  assumes "x \<le> 2 powi k" and "ulpExp x \<le> k"
  shows "double x \<le> 2 powi k"
proof -
  let ?e = "ulpExp x"
  have "x / 2 powi ?e \<le> 2 powi k / 2 powi ?e" using assms(1) by (simp add: divide_right_mono)
  also have "\<dots> = 2 powi (k - ?e)" by (rule pow2_diff [symmetric])
  finally have "x / 2 powi ?e \<le> of_int (2 ^ nat (k - ?e))"
    using assms(2) by (simp add: pow2_nat)
  then have "roundEven (x / 2 powi ?e) \<le> 2 ^ nat (k - ?e)" by (rule roundEven_le)
  then have "(of_int (roundEven (x / 2 powi ?e)) :: real) \<le> of_int (2 ^ nat (k - ?e))"
    by (simp only: of_int_le_iff)
  then have "of_int (roundEven (x / 2 powi ?e)) \<le> (2::real) powi (k - ?e)"
    using assms(2) by (simp add: pow2_nat)
  then have "of_int (roundEven (x / 2 powi ?e)) * 2 powi ?e \<le> (2::real) powi (k - ?e) * 2 powi ?e"
    by (intro mult_right_mono) simp_all
  then show ?thesis by (simp add: double_def pow2_add [symmetric])
qed

lemma expo_mono:
  assumes "0 < x" and "x \<le> y"
  shows "expo x \<le> expo y"
proof -
  from assms have x: "x \<noteq> 0" and y: "y \<noteq> 0" by auto
  from expo_bounds(1) [OF x] expo_bounds(2) [OF y] assms
  have "2 powi expo x \<le> y" "y < 2 powi (expo y + 1)" by simp_all
  then have "expo x < expo y + 1" by (rule pow2_le_less_exp)
  then show ?thesis by simp
qed

lemma double_mono_pos:
  assumes "0 < x" and "x \<le> y"
  shows "double x \<le> double y"
proof (cases "ulpExp x = ulpExp y")
  case True
  let ?p = "2 powi ulpExp y :: real"
  from assms(2) have "x / ?p \<le> y / ?p" by (simp add: divide_right_mono)
  then have "roundEven (x / ?p) \<le> roundEven (y / ?p)" by (rule roundEven_mono)
  then have "(of_int (roundEven (x / ?p)) :: real) \<le> of_int (roundEven (y / ?p))" by simp
  then have "of_int (roundEven (x / ?p)) * ?p \<le> of_int (roundEven (y / ?p)) * ?p"
    by (intro mult_right_mono) simp_all
  then show ?thesis by (simp add: double_def True)
next
  case False
  from assms have x: "x \<noteq> 0" and y: "y \<noteq> 0" and y0: "0 < y" by auto
  from expo_mono [OF assms] have "ulpExp x \<le> ulpExp y" by (simp add: ulpExp_def)
  with False have lt: "ulpExp x < ulpExp y" by simp
  then have uy: "ulpExp y = expo y - 52" and ex: "expo x < expo y"
    using ulpExp_ge [of x] by (simp_all add: ulpExp_def max_def split: if_splits)
  have "x < 2 powi (expo x + 1)" using expo_bounds(2) [OF x] assms(1) by simp
  also have "\<dots> \<le> 2 powi expo y" using ex by (intro pow2_mono) simp
  finally have "x \<le> 2 powi expo y" by simp
  moreover have "ulpExp x \<le> expo y" using lt uy by simp
  ultimately have "double x \<le> 2 powi expo y" by (rule double_le_pow2)
  also have "2 powi expo y \<le> double y"
  proof (rule double_ge_pow2)
    show "2 powi expo y \<le> y" using expo_bounds(1) [OF y] y0 by simp
    show "ulpExp y \<le> expo y" using uy by simp
  qed
  finally show ?thesis .
qed

lemma double_mono_nonneg:
  assumes "0 \<le> x" and "x \<le> y"
  shows "double x \<le> double y"
proof (cases "x = 0")
  case True
  with assms show ?thesis by (simp add: double_nonneg)
next
  case False
  with assms show ?thesis by (intro double_mono_pos) simp_all
qed

text \<open>Values on the grid of the format are not changed by rounding.\<close>

lemma double_exact:
  assumes x: "x = of_int m * 2 powi e" and m: "\<bar>m\<bar> < 2 ^ 53" and e: "- 1074 \<le> e"
  shows "double x = x"
proof (cases "x = 0")
  case True
  then show ?thesis by simp
next
  case False
  let ?E = "ulpExp x"
  have "\<bar>x\<bar> = of_int \<bar>m\<bar> * 2 powi e" by (simp add: x abs_mult)
  also have "\<dots> < of_int (2 ^ 53) * 2 powi e"
    using m by (intro mult_strict_right_mono) (simp_all only: of_int_less_iff pow2_pos)
  also have "\<dots> = 2 powi (e + 53)" by (simp add: pow2_add)
  finally have "\<bar>x\<bar> < 2 powi (e + 53)" .
  with expo_bounds(1) [OF False] have "expo x < e + 53" by (rule pow2_le_less_exp)
  with e have le: "?E \<le> e" by (simp add: ulpExp_def)
  have "x / 2 powi ?E = of_int m * 2 powi (e - ?E)" by (simp add: x pow2_diff)
  also have "\<dots> = of_int (m * 2 ^ nat (e - ?E))" using le by (simp add: pow2_nat)
  finally have "roundEven (x / 2 powi ?E) = m * 2 ^ nat (e - ?E)" by (simp only: roundEven_of_int)
  then have "double x = of_int (m * 2 ^ nat (e - ?E)) * 2 powi ?E" by (simp add: double_def)
  also have "\<dots> = of_int m * (2 powi (e - ?E) * 2 powi ?E)" using le by (simp add: pow2_nat)
  also have "\<dots> = x" by (simp add: x pow2_add [symmetric])
  finally show ?thesis .
qed

lemma double_exact_pow2:
  assumes e: "- 1074 \<le> e"
  shows "double (2 powi e) = 2 powi e" and "double (- (2 powi e)) = - (2 powi e)"
  using double_exact [of "2 powi e" 1 e] double_exact [of "- (2 powi e)" "- 1" e] e by simp_all

lemma double_idem [simp]: "double (double x) = double x"
proof (cases "x = 0")
  case True
  then show ?thesis by simp
next
  case False
  let ?E = "ulpExp x"
  let ?R = "roundEven (x / 2 powi ?E)"
  have "\<bar>x\<bar> < 2 powi (expo x + 1)" by (rule expo_bounds(2) [OF False])
  also have "\<dots> \<le> 2 powi (?E + 53)" using ulpExp_ge(2) [of x] by (intro pow2_mono) simp
  finally have "\<bar>x\<bar> / 2 powi ?E < 2 powi (?E + 53) / 2 powi ?E" by (simp add: divide_strict_right_mono)
  then have "\<bar>x / 2 powi ?E\<bar> < 2 ^ 53" by (simp add: pow2_add)
  then have "x / 2 powi ?E \<le> 2 ^ 53" and "- (2 ^ 53) \<le> x / 2 powi ?E" by linarith+
  then have b1: "x / 2 powi ?E \<le> of_int (2 ^ 53)" and b2: "of_int (- (2 ^ 53)) \<le> x / 2 powi ?E"
    by simp_all
  from b1 have "?R \<le> 2 ^ 53" by (rule roundEven_le)
  moreover from b2 have "- (2 ^ 53) \<le> ?R" by (rule roundEven_ge)
  ultimately have R: "\<bar>?R\<bar> \<le> 2 ^ 53" by simp
  show ?thesis
  proof (cases "\<bar>?R\<bar> = 2 ^ 53")
    case False
    with R have "\<bar>?R\<bar> < 2 ^ 53" by simp
    from double_exact [OF _ this ulpExp_ge(1) [of x], of "double x"] show ?thesis
      by (simp add: double_def)
  next
    case True
    then have "?R = 2 ^ 53 \<or> ?R = - (2 ^ 53)" by linarith
    then have "double x = 2 powi (?E + 53) \<or> double x = - (2 powi (?E + 53))"
      by (auto simp: double_def pow2_add)
    moreover have "- 1074 \<le> ?E + 53" using ulpExp_ge(1) [of x] by simp
    ultimately show ?thesis using double_exact_pow2 [of "?E + 53"] by auto
  qed
qed

lemma double_of_int: "\<bar>n\<bar> < 2 ^ 53 \<Longrightarrow> double (of_int n) = of_int n"
  using double_exact [of "of_int n" n 0] by simp

lemma double_of_nat: "n < 2 ^ 53 \<Longrightarrow> double (of_nat n) = of_nat n"
  using double_of_int [of "int n"] by simp

text \<open>A rounded comparison against a value of the format decides the exact comparison.\<close>

lemma double_less_imp:
  assumes "double x < d" and "double d = d" and "0 \<le> d"
  shows "x < d"
proof (rule ccontr)
  assume "\<not> x < d"
  then have "d \<le> x" by simp
  with assms(3) have "double d \<le> double x" by (rule double_mono_nonneg)
  with assms(1,2) show False by simp
qed


lemma isDouble_double [simp]: "isDouble (double x)"
  by (simp add: isDouble_def)

lemma isDouble_zero [simp]: "isDouble 0"
  by (simp add: isDouble_def)

text \<open>Every value of the format is a multiple of the smallest subnormal.\<close>

lemma isDouble_grid:
  assumes "isDouble x"
  shows "\<exists>k. x = of_int k * 2 powi (- 1074)"
proof -
  let ?E = "ulpExp x"
  define R where "R = roundEven (x / 2 powi ?E)"
  define n where "n = nat (?E + 1074)"
  have E: "0 \<le> ?E + 1074" using ulpExp_ge(1) [of x] by simp
  have "(2::real) powi ?E = 2 powi ((?E + 1074) + (- 1074))" by simp
  also have "\<dots> = 2 powi (?E + 1074) * 2 powi (- 1074)" by (rule pow2_add)
  finally have p: "(2::real) powi ?E = of_int (2 ^ n) * 2 powi (- 1074)"
    unfolding n_def pow2_nat [OF E] .
  have "x = of_int R * 2 powi ?E"
    using assms unfolding R_def isDouble_def double_def by simp
  then have "x = of_int (R * 2 ^ n) * 2 powi (- 1074)"
    by (simp only: p of_int_mult mult.assoc)
  then show ?thesis by blast
qed

text \<open>Adding two values of the format never underflows: the relative error bound always holds.\<close>

lemma double_add_rel:
  assumes a: "isDouble a" and b: "isDouble b" and a0: "0 \<le> a" and b0: "0 \<le> b"
  shows "\<bar>double (a + b) - (a + b)\<bar> \<le> double (a + b) / 2 ^ 53"
    and "\<bar>double (a + b) - (a + b)\<bar> \<le> (a + b) / 2 ^ 53"
proof -
  let ?x = "a + b"
  have x0: "0 \<le> ?x" using a0 b0 by simp
  have "\<bar>double ?x - ?x\<bar> \<le> double ?x / 2 ^ 53 \<and> \<bar>double ?x - ?x\<bar> \<le> ?x / 2 ^ 53"
  proof (cases "2 powi (- 1022) \<le> ?x")
    case True
    then have n: "2 powi (- 1022) \<le> \<bar>?x\<bar>" by simp
    then have x: "?x \<noteq> 0" using pow2_pos [of "- 1022"] by linarith
    have "\<bar>double ?x - ?x\<bar> \<le> 2 powi (expo ?x - 52) / 2"
      using double_error [of ?x] by (simp only: ulpExp_normal [OF n])
    also have "\<dots> = 2 powi expo ?x / 2 ^ 53" by (rule pow2_53)
    finally have e: "\<bar>double ?x - ?x\<bar> \<le> 2 powi expo ?x / 2 ^ 53" .
    have le: "2 powi expo ?x \<le> ?x" using expo_bounds(1) [OF x] x0 by simp
    moreover have "ulpExp ?x \<le> expo ?x" by (simp add: ulpExp_normal [OF n])
    ultimately have "2 powi expo ?x \<le> double ?x" by (rule double_ge_pow2)
    with e le show ?thesis by (auto intro: order_trans divide_right_mono)
  next
    case False
    from isDouble_grid [OF a] isDouble_grid [OF b] obtain ka kb
      where k: "a = of_int ka * 2 powi (- 1074)" "b = of_int kb * 2 powi (- 1074)" by blast
    then have s: "?x = of_int (ka + kb) * 2 powi (- 1074)" by (simp add: algebra_simps)
    have "of_int (ka + kb) * 2 powi (- 1074) < (2::real) powi (- 1022)" using False s by simp
    also have "\<dots> = 2 powi 52 * 2 powi (- 1074)" by (simp add: pow2_add [symmetric])
    finally have "(of_int (ka + kb) :: real) < 2 powi 52" by (simp only: mult_less_cancel_right_pos pow2_pos)
    then have "(of_int (ka + kb) :: real) < of_int (2 ^ 52)" by simp
    then have up: "ka + kb < 2 ^ 52" by (simp only: of_int_less_iff)
    have "0 \<le> of_int (ka + kb) * (2::real) powi (- 1074)" using x0 s by simp
    then have "(0::real) \<le> of_int (ka + kb)" by (simp add: zero_le_mult_iff)
    then have "0 \<le> ka + kb" by (simp only: of_int_0_le_iff)
    with up have "\<bar>ka + kb\<bar> < 2 ^ 53" by simp
    from double_exact [OF s this] have "double ?x = ?x" by simp
    with x0 show ?thesis by simp
  qed
  then show "\<bar>double ?x - ?x\<bar> \<le> double ?x / 2 ^ 53" and "\<bar>double ?x - ?x\<bar> \<le> ?x / 2 ^ 53"
    by simp_all
qed

lemma double_add_ge:
  assumes "isDouble a" and "0 \<le> a" and "0 \<le> b"
  shows "a \<le> double (a + b)"
proof -
  from assms(2,3) have "double a \<le> double (a + b)" by (intro double_mono_nonneg) simp_all
  with assms(1) show ?thesis by (simp add: isDouble_def)
qed

lemma centi: "double (1 / 100) = 5764607523034235 / 576460752303423488"
  by code_simp

section \<open>Properties of the scheduler\<close>

lemma groupClips_scenarioClips:
  "groupClips scenarioClips =
     \<lparr>lib_idle = [\<lparr>clip_id = ''idle'', clip_type = Idle, clip_duration = 1\<rparr>],
      lib_idleToSpeech = [\<lparr>clip_id = ''in'', clip_type = IdleToSpeech, clip_duration = 2 / 10\<rparr>],
      lib_speechLoop = [\<lparr>clip_id = ''loop'', clip_type = SpeechLoop, clip_duration = 4 / 10\<rparr>],
      lib_speechToIdle = [\<lparr>clip_id = ''out'', clip_type = SpeechToIdle, clip_duration = 2 / 10\<rparr>]\<rparr>"
  by (simp add: groupClips_def scenarioClips_def emptyLibrary_def)

lemmas schedule_unfold =
  Let_def processSegment_def coverSegment_def coverLoop.simps takeClip_def maybeTakeClip_def
  nextIndex_def coverPool_def initialState_def

text \<open>
  C2. On the end-to-end scenario (idle pool [1.0 s], speechLoop pool [0.4 s], idleToSpeech
  pool [0.2 s], speechToIdle pool [0.2 s]; segments idle 0 for 2.0 s, talk 2.0 for 1.0 s,
  idle 3.0 for 1.0 s) buildTimelinePlan returns the placements idle at 0.0, idle at 1.0,
  idleToSpeech at 2.0, speechLoop at 2.2, 2.6 and 3.0, speechToIdle at 3.4, idle at 3.6,
  the single talk plan with videoStart 2.2, videoEnd 3.4, audioStart 2.0, audioDuration
  1.0, and totalDuration 4.6.
\<close>

theorem C2_scenario_plan:
  "buildTimelinePlan scenarioSegments scenarioClips =
     Some (Inr
       \<lparr>placements =
          [\<lparr>pl_clip = \<lparr>clip_id = ''idle'', clip_type = Idle, clip_duration = 1\<rparr>, pl_start = 0\<rparr>,
           \<lparr>pl_clip = \<lparr>clip_id = ''idle'', clip_type = Idle, clip_duration = 1\<rparr>, pl_start = 1\<rparr>,
           \<lparr>pl_clip = \<lparr>clip_id = ''in'', clip_type = IdleToSpeech, clip_duration = 2 / 10\<rparr>,
              pl_start = 2\<rparr>,
           \<lparr>pl_clip = \<lparr>clip_id = ''loop'', clip_type = SpeechLoop, clip_duration = 4 / 10\<rparr>,
              pl_start = 22 / 10\<rparr>,
           \<lparr>pl_clip = \<lparr>clip_id = ''loop'', clip_type = SpeechLoop, clip_duration = 4 / 10\<rparr>,
              pl_start = 26 / 10\<rparr>,
           \<lparr>pl_clip = \<lparr>clip_id = ''loop'', clip_type = SpeechLoop, clip_duration = 4 / 10\<rparr>,
              pl_start = 3\<rparr>,
           \<lparr>pl_clip = \<lparr>clip_id = ''out'', clip_type = SpeechToIdle, clip_duration = 2 / 10\<rparr>,
              pl_start = 34 / 10\<rparr>,
           \<lparr>pl_clip = \<lparr>clip_id = ''idle'', clip_type = Idle, clip_duration = 1\<rparr>,
              pl_start = 36 / 10\<rparr>],
        talkPlans =
          [\<lparr>segmentId = ''talk-1'', videoStart = 22 / 10, videoEnd = 34 / 10,
            audioStart = 2, audioDuration = 1\<rparr>],
        totalDuration = 46 / 10\<rparr>)"
  by (simp add: buildTimelinePlan_def groupClips_scenarioClips scenarioSegments_def schedule_unfold)

lemma pool_foldl_pushClip:
  "pool (foldl pushClip acc clips) ty = pool acc ty @ filter (\<lambda>c. clip_type c = ty) clips"
  by (induction clips arbitrary: acc) (cases ty; auto split: MotionType.splits)+

lemma pool_groupClips: "pool (groupClips clips) ty = filter (\<lambda>c. clip_type c = ty) clips"
  unfolding groupClips_def pool_foldl_pushClip by (cases ty; simp add: emptyLibrary_def)

lemma takeClip_Inr:
  assumes "pool library ty \<noteq> []"
  shows "\<exists>clip st'. takeClip library ty st = Inr (clip, st') \<and> clip \<in> set (pool library ty)
     \<and> st_placements st' = st_placements st @ [\<lparr>pl_clip = clip, pl_start = st_videoCursor st\<rparr>]
     \<and> st_videoCursor st' = st_videoCursor st + clip_duration clip
     \<and> st_talkPlans st' = st_talkPlans st \<and> st_previousKind st' = st_previousKind st"
  using assms by (simp add: takeClip_def nextIndex_def Let_def)

lemma covers_stop:
  "\<not> covered + 1 / 100 < seg_duration segment \<Longrightarrow> covers library segment covered st st []"
  by (simp add: covers_def durations_def)

lemma covers_step:
  assumes t: "takeClip library (coverPool segment) st = Inr (clip, st1)"
    and ne: "pool library (coverPool segment) \<noteq> []"
    and lt: "covered + 1 / 100 < seg_duration segment"
    and c: "covers library segment (covered + clip_duration clip) st1 st' new"
  shows "covers library segment covered st st' (\<lparr>pl_clip = clip, pl_start = st_videoCursor st\<rparr> # new)"
proof -
  from takeClip_Inr [OF ne, of st] t
  have k: "clip \<in> set (pool library (coverPool segment))"
    "st_placements st1 = st_placements st @ [\<lparr>pl_clip = clip, pl_start = st_videoCursor st\<rparr>]"
    "st_videoCursor st1 = st_videoCursor st + clip_duration clip"
    "st_talkPlans st1 = st_talkPlans st" "st_previousKind st1 = st_previousKind st"
    by auto
  show ?thesis
    using c k lt by (auto simp: covers_def durations_def)
qed

lemma coverLoop_partial_aux:
  "coverLoop library segment covered st = Some r \<Longrightarrow>
   pool library (coverPool segment) \<noteq> [] \<longrightarrow>
     (\<exists>st' new. r = Inr st' \<and> covers library segment covered st st' new)"
proof (rule coverLoop.raw_induct
    [where P = "\<lambda>library segment covered st r. pool library (coverPool segment) \<noteq> [] \<longrightarrow>
       (\<exists>st' new. r = Inr st' \<and> covers library segment covered st st' new)"], goal_cases)
  case (1 f library segment covered st r)
  show ?case
  proof
    assume ne: "pool library (coverPool segment) \<noteq> []"
    show "\<exists>st' new. r = Inr st' \<and> covers library segment covered st st' new"
    proof (cases "covered + 1 / 100 < seg_duration segment")
      case False
      with 1(3) have "r = Inr st" by simp
      with False show ?thesis using covers_stop by blast
    next
      case True
      from takeClip_Inr [OF ne, of st] obtain clip st1
        where t: "takeClip library (coverPool segment) st = Inr (clip, st1)" by blast
      with True 1(3) have "f library segment (covered + clip_duration clip) st1 = Some r"
        by simp
      from 1(2) [OF this] ne obtain st' new
        where "r = Inr st'" "covers library segment (covered + clip_duration clip) st1 st' new" by blast
      with covers_step [OF t ne True] show ?thesis by blast
    qed
  qed
qed

lemma coverLoop_partial:
  assumes "coverLoop library segment covered st = Some r"
    and "pool library (coverPool segment) \<noteq> []"
  shows "\<exists>st' new. r = Inr st' \<and> covers library segment covered st st' new"
  using coverLoop_partial_aux [OF assms(1)] assms(2) by blast

lemma coverLoop_terminates:
  assumes ne: "pool library (coverPool segment) \<noteq> []"
    and pos: "\<forall>c \<in> set (pool library (coverPool segment)). 0 < clip_duration c"
  shows "\<exists>r. coverLoop library segment covered st = Some r"
proof -
  define m where "m = Min (clip_duration ` set (pool library (coverPool segment)))"
  have mpos: "0 < m" using ne pos unfolding m_def by (simp add: Min_gr_iff)
  have mle: "\<And>c. c \<in> set (pool library (coverPool segment)) \<Longrightarrow> m \<le> clip_duration c"
    unfolding m_def by simp
  define need where "need = (\<lambda>covered. nat \<lceil>(seg_duration segment - covered) / m\<rceil>)"
  show ?thesis
  proof (induction "need covered" arbitrary: covered st rule: less_induct)
    case less
    show ?case
    proof (cases "covered + 1 / 100 < seg_duration segment")
      case False
      then show ?thesis by (subst coverLoop.simps) simp
    next
      case True
      from takeClip_Inr [OF ne, of st] obtain clip st1
        where t: "takeClip library (coverPool segment) st = Inr (clip, st1)"
          and mem: "clip \<in> set (pool library (coverPool segment))" by blast
      have d: "m \<le> clip_duration clip" using mle mem by blast
      have "(seg_duration segment - (covered + clip_duration clip)) / m
            \<le> (seg_duration segment - covered) / m - 1"
        using d mpos by (simp add: field_simps)
      then have "\<lceil>(seg_duration segment - (covered + clip_duration clip)) / m\<rceil>
            \<le> \<lceil>(seg_duration segment - covered) / m\<rceil> - 1"
        by (metis ceiling_diff_one ceiling_mono)
      moreover have "0 < \<lceil>(seg_duration segment - covered) / m\<rceil>"
        using True mpos by (simp add: field_simps)
      ultimately have "need (covered + clip_duration clip) < need covered"
        unfolding need_def by linarith
      from less [OF this, of st1] obtain r
        where "coverLoop library segment (covered + clip_duration clip) st1 = Some r" by blast
      with True t show ?thesis by (subst coverLoop.simps) simp
    qed
  qed
qed

lemma durations_simps [simp]:
  "durations [] = 0" "durations (p # ps) = clip_duration (pl_clip p) + durations ps"
  "durations (ps @ qs) = durations ps + durations qs"
  by (simp_all add: durations_def)

lemma maybeTakeClip_Inr:
  "\<exists>st' new. maybeTakeClip library ty st = Inr st'
     \<and> st_placements st' = st_placements st @ new
     \<and> st_videoCursor st' = st_videoCursor st + durations new
     \<and> st_talkPlans st' = st_talkPlans st
     \<and> pl_clip ` set new \<subseteq> set (pool library ty)"
proof (cases "pool library ty = []")
  case True
  then have "maybeTakeClip library ty st = Inr st" by (simp add: maybeTakeClip_def)
  then show ?thesis by (intro exI [of _ st] exI [of _ "[]"]) simp
next
  case False
  from takeClip_Inr [OF False, of st] obtain clip st' where
    "takeClip library ty st = Inr (clip, st')" "clip \<in> set (pool library ty)"
    "st_placements st' = st_placements st @ [\<lparr>pl_clip = clip, pl_start = st_videoCursor st\<rparr>]"
    "st_videoCursor st' = st_videoCursor st + clip_duration clip"
    "st_talkPlans st' = st_talkPlans st" by blast
  with False show ?thesis
    by (intro exI [of _ st'] exI [of _ "[\<lparr>pl_clip = clip, pl_start = st_videoCursor st\<rparr>]"])
       (simp add: maybeTakeClip_def)
qed

lemma coverSegment_partial:
  assumes "coverSegment library segment st = Some r"
    and "lib_idle library \<noteq> []" and "lib_speechLoop library \<noteq> []"
  shows "\<exists>st' new. r = Inr st' \<and> covers library segment 0 st st' new"
proof -
  have "pool library (coverPool segment) \<noteq> []"
    using assms(2,3) by (simp add: coverPool_def)
  with assms(1) show ?thesis unfolding coverSegment_def by (rule coverLoop_partial)
qed

lemma pool_subset: "set (pool library ty) \<subseteq> (\<Union>ty. set (pool library ty))"
  by blast

lemma processSegment_partial:
  assumes run: "processSegment library segment nextSegment st = Some r"
    and idle: "lib_idle library \<noteq> []" and loop: "lib_speechLoop library \<noteq> []"
  shows "\<exists>st' pre mid post. r = Inr st' \<and> advances library segment st st' pre mid post"
proof (cases "seg_kind segment = IdleSeg")
  case True
  with run obtain r1 where c: "coverSegment library segment st = Some r1"
    by (auto simp: processSegment_def split: option.splits)
  from coverSegment_partial [OF c idle loop] obtain st1 mid
    where r1: "r1 = Inr st1" and cov: "covers library segment 0 st st1 mid" by blast
  from run True c r1 have r: "r = Inr (st1\<lparr>st_previousKind := IdleSeg\<rparr>)"
    by (simp add: processSegment_def)
  have "advances library segment st (st1\<lparr>st_previousKind := IdleSeg\<rparr>) [] mid []"
    using cov True pool_subset [of library "coverPool segment"]
    by (auto simp: advances_def covers_def newTalkPlans_def)
  with r show ?thesis by blast
next
  case False
  then have talk: "seg_kind segment = TalkSeg" by (cases "seg_kind segment") simp_all
  define st0 where "st0 = (if st_previousKind st = IdleSeg then maybeTakeClip library IdleToSpeech st else Inr st)"
  have "\<exists>st1 pre. st0 = Inr st1 \<and> st_placements st1 = st_placements st @ pre
     \<and> st_videoCursor st1 = st_videoCursor st + durations pre
     \<and> st_talkPlans st1 = st_talkPlans st
     \<and> pl_clip ` set pre \<subseteq> set (pool library IdleToSpeech)"
  proof (cases "st_previousKind st = IdleSeg")
    case True
    then show ?thesis unfolding st0_def using maybeTakeClip_Inr [of library IdleToSpeech st] by simp
  next
    case False
    then show ?thesis unfolding st0_def by (intro exI [of _ st] exI [of _ "[]"]) simp
  qed
  then obtain st1 pre where st1: "st0 = Inr st1"
    and p1: "st_placements st1 = st_placements st @ pre"
    and c1: "st_videoCursor st1 = st_videoCursor st + durations pre"
    and t1: "st_talkPlans st1 = st_talkPlans st"
    and s1: "pl_clip ` set pre \<subseteq> set (pool library IdleToSpeech)" by blast
  from run talk st1 obtain r2 where c: "coverSegment library segment st1 = Some r2"
    by (auto simp: processSegment_def st0_def [symmetric] Let_def split: option.splits)
  from coverSegment_partial [OF c idle loop] obtain st2 mid
    where r2: "r2 = Inr st2" and cov: "covers library segment 0 st1 st2 mid" by blast
  define st3 where "st3 = st2\<lparr>st_talkPlans := st_talkPlans st2 @
       [\<lparr>segmentId = seg_id segment, videoStart = st_videoCursor st1,
         videoEnd = st_videoCursor st2, audioStart = seg_start segment,
         audioDuration = seg_duration segment\<rparr>]\<rparr>"
  have adv3: "\<And>k. advances library segment st (st3\<lparr>st_previousKind := k\<rparr>) pre mid []"
    using cov talk p1 c1 t1 s1 pool_subset [of library "coverPool segment"] pool_subset [of library IdleToSpeech]
    by (auto simp: advances_def covers_def newTalkPlans_def st3_def)
  show ?thesis
  proof (cases "nextSegment = None \<or> map_option seg_kind nextSegment = Some IdleSeg")
    case False
    with run talk st1 c r2 have "r = Inr (st3\<lparr>st_previousKind := TalkSeg\<rparr>)"
      by (auto simp add: processSegment_def st0_def [symmetric] Let_def st3_def)
    with adv3 show ?thesis by blast
  next
    case True
    from maybeTakeClip_Inr [of library SpeechToIdle st3] obtain st4 post
      where m: "maybeTakeClip library SpeechToIdle st3 = Inr st4"
        and p4: "st_placements st4 = st_placements st3 @ post"
        and c4: "st_videoCursor st4 = st_videoCursor st3 + durations post"
        and t4: "st_talkPlans st4 = st_talkPlans st3"
        and s4: "pl_clip ` set post \<subseteq> set (pool library SpeechToIdle)" by blast
    from run talk st1 c r2 True m have r: "r = Inr (st4\<lparr>st_previousKind := IdleSeg\<rparr>)"
      by (auto simp add: processSegment_def st0_def [symmetric] Let_def st3_def)
    have "advances library segment st (st4\<lparr>st_previousKind := IdleSeg\<rparr>) pre mid post"
      using adv3 [of IdleSeg] p4 c4 t4 s4 pool_subset [of library SpeechToIdle]
      by (auto simp: advances_def)
    with r show ?thesis by blast
  qed
qed

lemma coverSegment_terminates:
  assumes "lib_idle library \<noteq> []" and "lib_speechLoop library \<noteq> []"
    and "\<forall>c \<in> set (lib_idle library). 0 < clip_duration c"
    and "\<forall>c \<in> set (lib_speechLoop library). 0 < clip_duration c"
  shows "\<exists>r. coverSegment library segment st = Some r"
  unfolding coverSegment_def
  by (rule coverLoop_terminates) (use assms in \<open>simp_all add: coverPool_def\<close>)

lemma processSegment_terminates:
  assumes idle: "lib_idle library \<noteq> []" and loop: "lib_speechLoop library \<noteq> []"
    and ipos: "\<forall>c \<in> set (lib_idle library). 0 < clip_duration c"
    and lpos: "\<forall>c \<in> set (lib_speechLoop library). 0 < clip_duration c"
  shows "\<exists>r. processSegment library segment nextSegment st = Some r"
proof -
  note ct = coverSegment_terminates [OF idle loop ipos lpos]
  note cp = coverSegment_partial [OF _ idle loop]
  show ?thesis
  proof (cases "seg_kind segment = IdleSeg")
    case True
    from ct [of segment st] obtain r1 where c: "coverSegment library segment st = Some r1" by blast
    from cp [OF c] obtain st1 where "r1 = Inr st1" by blast
    with c True show ?thesis by (simp add: processSegment_def)
  next
    case False
    obtain st1 where st1: "(if st_previousKind st = IdleSeg then maybeTakeClip library IdleToSpeech st else Inr st) = Inr st1"
      using maybeTakeClip_Inr [of library IdleToSpeech st] by (cases "st_previousKind st = IdleSeg") auto
    from ct [of segment st1] obtain r2 where c: "coverSegment library segment st1 = Some r2" by blast
    from cp [OF c] obtain st2 where r2: "r2 = Inr st2" by blast
    obtain st4 where "maybeTakeClip library SpeechToIdle (st2\<lparr>st_talkPlans := st_talkPlans st2 @
       [\<lparr>segmentId = seg_id segment, videoStart = st_videoCursor st1,
         videoEnd = st_videoCursor st2, audioStart = seg_start segment,
         audioDuration = seg_duration segment\<rparr>]\<rparr>) = Inr st4"
      using maybeTakeClip_Inr by blast
    with False st1 c r2 show ?thesis
      by (simp add: processSegment_def Let_def)
  qed
qed

lemma processSegments_terminates:
  assumes idle: "lib_idle library \<noteq> []" and loop: "lib_speechLoop library \<noteq> []"
    and ipos: "\<forall>c \<in> set (lib_idle library). 0 < clip_duration c"
    and lpos: "\<forall>c \<in> set (lib_speechLoop library). 0 < clip_duration c"
  shows "\<exists>st'. processSegments library segments st = Some (Inr st')"
proof (induction segments arbitrary: st)
  case Nil
  show ?case by simp
next
  case (Cons segment rest)
  let ?n = "case rest of [] \<Rightarrow> None | n # _ \<Rightarrow> Some n"
  from processSegment_terminates [OF idle loop ipos lpos, of segment ?n st]
  obtain r where r: "processSegment library segment ?n st = Some r" by blast
  from processSegment_partial [OF r idle loop] obtain st1 where "r = Inr st1" by blast
  with r Cons.IH [of st1] show ?case by simp
qed

lemma processSegments_invariant:
  assumes run: "processSegments library segments st = Some r"
    and idle: "lib_idle library \<noteq> []" and loop: "lib_speechLoop library \<noteq> []"
    and init: "P st"
    and step: "\<And>segment st st' pre mid post.
       P st \<Longrightarrow> advances library segment st st' pre mid post \<Longrightarrow> P st'"
  shows "\<exists>st'. r = Inr st' \<and> P st'"
  using run init
proof (induction segments arbitrary: st)
  case Nil
  then show ?case by auto
next
  case (Cons segment rest)
  let ?n = "case rest of [] \<Rightarrow> None | n # _ \<Rightarrow> Some n"
  from Cons.prems(1) obtain r1 where r1: "processSegment library segment ?n st = Some r1"
    by (auto split: option.splits)
  from processSegment_partial [OF r1 idle loop] obtain st1 pre mid post
    where s: "r1 = Inr st1" and a: "advances library segment st st1 pre mid post" by blast
  from Cons.prems(1) r1 s have "processSegments library rest st1 = Some r" by simp
  moreover have "P st1" using step [OF Cons.prems(2) a] .
  ultimately show ?case by (rule Cons.IH)
qed


lemma placedFrom_step:
  "placedFrom library st \<Longrightarrow> advances library segment st st' pre mid post \<Longrightarrow> placedFrom library st'"
  by (auto simp: placedFrom_def advances_def)



lemma buildTimelinePlan_partial:
  assumes "buildTimelinePlan segments clips = Some r"
    and "lib_idle (groupClips clips) \<noteq> []" and "lib_speechLoop (groupClips clips) \<noteq> []"
    and "P initialState"
    and "\<And>segment st st' pre mid post.
       P st \<Longrightarrow> advances (groupClips clips) segment st st' pre mid post \<Longrightarrow> P st'"
  shows "\<exists>st'. r = Inr \<lparr>placements = st_placements st', talkPlans = st_talkPlans st',
            totalDuration = st_videoCursor st'\<rparr> \<and> P st'"
proof -
  from assms(1-3) obtain r1 where r1: "processSegments (groupClips clips) segments initialState = Some r1"
    by (auto simp: buildTimelinePlan_def Let_def split: option.splits)
  have "\<exists>st'. r1 = Inr st' \<and> P st'"
    by (rule processSegments_invariant [where P = P, OF r1 assms(2,3,4)]) (rule assms(5))
  then obtain st' where "r1 = Inr st'" "P st'" by blast
  with assms(1-3) r1 show ?thesis by (auto simp: buildTimelinePlan_def Let_def)
qed

lemma buildTimelinePlan_Inr_pools:
  "buildTimelinePlan segments clips = Some (Inr plan) \<Longrightarrow>
     lib_idle (groupClips clips) \<noteq> [] \<and> lib_speechLoop (groupClips clips) \<noteq> []"
  by (auto simp: buildTimelinePlan_def Let_def split: if_splits)




text \<open>
  C6. buildTimelinePlan fails with a configuration error exactly when the idle pool or the
  speechLoop pool of the library built from its clip list is empty, and then it fails at
  its first two checks, before any segment is processed. The guard inside takeClip is
  never the cause of a failure. When both pools are non-empty and every clip has a
  strictly positive duration, buildTimelinePlan returns a plan, whatever the segments.
\<close>

theorem C6_configuration_errors:
  "(pool (groupClips clips) Idle = [] \<longrightarrow>
      buildTimelinePlan segments clips = Some (Inl IdleClipsRequired)) \<and>
   (pool (groupClips clips) Idle \<noteq> [] \<and> pool (groupClips clips) SpeechLoop = [] \<longrightarrow>
      buildTimelinePlan segments clips = Some (Inl SpeechLoopClipsRequired)) \<and>
   ((\<exists>e. buildTimelinePlan segments clips = Some (Inl e)) \<longleftrightarrow>
      (pool (groupClips clips) Idle = [] \<or> pool (groupClips clips) SpeechLoop = [])) \<and>
   buildTimelinePlan segments clips \<noteq> Some (Inl (MissingClipForState ty)) \<and>
   (pool (groupClips clips) Idle \<noteq> [] \<and> pool (groupClips clips) SpeechLoop \<noteq> [] \<and>
    (\<forall>c \<in> set clips. 0 < clip_duration c) \<longrightarrow>
      (\<exists>plan. buildTimelinePlan segments clips = Some (Inr plan)))"
proof -
  let ?lib = "groupClips clips"
  have noerr: "buildTimelinePlan segments clips \<noteq> Some (Inl e)"
    if "lib_idle ?lib \<noteq> []" "lib_speechLoop ?lib \<noteq> []" for e
  proof
    assume "buildTimelinePlan segments clips = Some (Inl e)"
    from buildTimelinePlan_partial [where P = "\<lambda>_. True", OF this that]
    show False by blast
  qed
  have early: "lib_idle ?lib = [] \<Longrightarrow> buildTimelinePlan segments clips = Some (Inl IdleClipsRequired)"
    "lib_idle ?lib \<noteq> [] \<Longrightarrow> lib_speechLoop ?lib = [] \<Longrightarrow>
       buildTimelinePlan segments clips = Some (Inl SpeechLoopClipsRequired)"
    by (simp_all add: buildTimelinePlan_def Let_def)
  have iff: "(\<exists>e. buildTimelinePlan segments clips = Some (Inl e)) \<longleftrightarrow>
      (lib_idle ?lib = [] \<or> lib_speechLoop ?lib = [])"
    using noerr early by metis
  have guard: "buildTimelinePlan segments clips \<noteq> Some (Inl (MissingClipForState ty))"
    using noerr early by (metis error.distinct(3,5) option.inject sum.inject(1))
  have total: "\<exists>plan. buildTimelinePlan segments clips = Some (Inr plan)"
    if i: "lib_idle ?lib \<noteq> []" and l: "lib_speechLoop ?lib \<noteq> []"
      and pos: "\<forall>c \<in> set clips. 0 < clip_duration c"
  proof -
    have "set (lib_idle ?lib) \<subseteq> set clips" "set (lib_speechLoop ?lib) \<subseteq> set clips"
      using pool_groupClips [of clips Idle] pool_groupClips [of clips SpeechLoop] by auto
    with pos have "\<forall>c \<in> set (lib_idle ?lib). 0 < clip_duration c"
      "\<forall>c \<in> set (lib_speechLoop ?lib). 0 < clip_duration c" by auto
    from processSegments_terminates [OF i l this, of segments initialState] i l
    show ?thesis by (auto simp: buildTimelinePlan_def Let_def)
  qed
  show ?thesis using early iff guard total by simp
qed

text \<open>
  The scenario's clip list satisfies the hypotheses of the last part of C6; without its
  idle clip the first check fails.
\<close>

theorem C6_configuration_errors_witness:
  "pool (groupClips scenarioClips) Idle \<noteq> [] \<and> pool (groupClips scenarioClips) SpeechLoop \<noteq> [] \<and>
   list_all (\<lambda>c. 0 < clip_duration c) scenarioClips \<and>
   (\<exists>plan. buildTimelinePlan scenarioSegments scenarioClips = Some (Inr plan)) \<and>
   pool (groupClips (tl scenarioClips)) Idle = [] \<and>
   buildTimelinePlan scenarioSegments (tl scenarioClips) = Some (Inl IdleClipsRequired)"
proof -
  have a: "pool (groupClips scenarioClips) Idle \<noteq> []" "pool (groupClips scenarioClips) SpeechLoop \<noteq> []"
    by (simp_all add: groupClips_scenarioClips)
  have b: "\<forall>c \<in> set scenarioClips. 0 < clip_duration c" by (simp add: scenarioClips_def)
  have c: "pool (groupClips (tl scenarioClips)) Idle = []"
    by (simp add: groupClips_def scenarioClips_def emptyLibrary_def)
  note inst = C6_configuration_errors [of scenarioClips scenarioSegments Idle]
  note inst' = C6_configuration_errors [of "tl scenarioClips" scenarioSegments Idle]
  from inst a b have "\<exists>plan. buildTimelinePlan scenarioSegments scenarioClips = Some (Inr plan)" by blast
  moreover from inst' c have "buildTimelinePlan scenarioSegments (tl scenarioClips) = Some (Inl IdleClipsRequired)"
    by blast
  ultimately show ?thesis using a b c by (simp add: list_all_iff)
qed

section \<open>Properties of the scheduler in double arithmetic\<close>

lemma advance_simps [simp]:
  "advance t [] = t"
  "advance t (p # ps) = advance (double (t + clip_duration (pl_clip p))) ps"
  "advance t (ps @ [q]) = double (advance t ps + clip_duration (pl_clip q))"
  by (simp_all add: advance_def)

lemma takeClipD_Inr:
  assumes "pool library ty \<noteq> []"
  shows "\<exists>clip st'. takeClipD library ty st = Inr (clip, st') \<and> clip \<in> set (pool library ty)
     \<and> st_placements st' = st_placements st @ [\<lparr>pl_clip = clip, pl_start = st_videoCursor st\<rparr>]
     \<and> st_videoCursor st' = double (st_videoCursor st + clip_duration clip)
     \<and> st_talkPlans st' = st_talkPlans st \<and> st_previousKind st' = st_previousKind st"
  using assms by (simp add: takeClipD_def nextIndex_def Let_def)

lemma coversD_stop:
  "\<not> double (covered + double (1 / 100)) < seg_duration segment \<Longrightarrow> coversD library segment covered st st []"
  by (simp add: coversD_def)

lemma coversD_step:
  assumes t: "takeClipD library (coverPool segment) st = Inr (clip, st1)"
    and ne: "pool library (coverPool segment) \<noteq> []"
    and lt: "double (covered + double (1 / 100)) < seg_duration segment"
    and c: "coversD library segment (double (covered + clip_duration clip)) st1 st' new"
  shows "coversD library segment covered st st' (\<lparr>pl_clip = clip, pl_start = st_videoCursor st\<rparr> # new)"
proof -
  from takeClipD_Inr [OF ne, of st] t
  have k: "clip \<in> set (pool library (coverPool segment))"
    "st_placements st1 = st_placements st @ [\<lparr>pl_clip = clip, pl_start = st_videoCursor st\<rparr>]"
    "st_videoCursor st1 = double (st_videoCursor st + clip_duration clip)"
    "st_talkPlans st1 = st_talkPlans st" "st_previousKind st1 = st_previousKind st"
    by auto
  show ?thesis
    using c k lt by (cases "new = []") (auto simp: coversD_def)
qed

lemma coverLoopD_partial_aux:
  "coverLoopD library segment covered st = Some r \<Longrightarrow>
   pool library (coverPool segment) \<noteq> [] \<longrightarrow>
     (\<exists>st' new. r = Inr st' \<and> coversD library segment covered st st' new)"
proof (rule coverLoopD.raw_induct
    [where P = "\<lambda>library segment covered st r. pool library (coverPool segment) \<noteq> [] \<longrightarrow>
       (\<exists>st' new. r = Inr st' \<and> coversD library segment covered st st' new)"], goal_cases)
  case (1 f library segment covered st r)
  show ?case
  proof
    assume ne: "pool library (coverPool segment) \<noteq> []"
    show "\<exists>st' new. r = Inr st' \<and> coversD library segment covered st st' new"
    proof (cases "double (covered + double (1 / 100)) < seg_duration segment")
      case False
      with 1(3) have "r = Inr st" by simp
      with False show ?thesis using coversD_stop by blast
    next
      case True
      from takeClipD_Inr [OF ne, of st] obtain clip st1
        where t: "takeClipD library (coverPool segment) st = Inr (clip, st1)" by blast
      with True 1(3) have "f library segment (double (covered + clip_duration clip)) st1 = Some r"
        by simp
      from 1(2) [OF this] ne obtain st' new
        where "r = Inr st'" "coversD library segment (double (covered + clip_duration clip)) st1 st' new" by blast
      with coversD_step [OF t ne True] show ?thesis by blast
    qed
  qed
qed

lemma coverLoopD_partial:
  assumes "coverLoopD library segment covered st = Some r"
    and "pool library (coverPool segment) \<noteq> []"
  shows "\<exists>st' new. r = Inr st' \<and> coversD library segment covered st st' new"
  using coverLoopD_partial_aux [OF assms(1)] assms(2) by blast

text \<open>One turn of the loop moves the running sum by at least a quarter of the clip.\<close>

lemma centi_bounds: "1 / 128 \<le> double (1 / 100)" "double (1 / 100) \<le> 1 / 100 + 1 / 2 ^ 60"
  "1 / 100 \<le> double (1 / 100)"
  by (simp_all add: centi)

lemma double_lower:
  assumes "2 powi (- 1022) \<le> x"
  shows "x - x / 2 ^ 53 \<le> double x" and "double x \<le> x + x / 2 ^ 53"
proof -
  have "0 < x" using assms pow2_pos [of "- 1022"] by linarith
  moreover have "\<bar>double x - x\<bar> \<le> \<bar>x\<bar> / 2 ^ 53" using assms by (intro double_rel) simp
  ultimately have "\<bar>double x - x\<bar> \<le> x / 2 ^ 53" by simp
  then show "x - x / 2 ^ 53 \<le> double x" and "double x \<le> x + x / 2 ^ 53" by linarith+
qed

lemma tiny: "(2::real) powi (- 1022) \<le> 1 / 1180591620717411303424"
proof -
  have "(2::real) powi (- 1022) \<le> 2 powi (- 70)" by (rule pow2_mono) simp
  also have "(2::real) powi (- 70) = 1 / 1180591620717411303424" by (simp add: power_int_minus field_simps)
  finally show ?thesis .
qed

lemma double_lower_num:
  assumes "2 powi (- 1022) \<le> x"
  shows "x - x / 9007199254740992 \<le> double x" and "double x \<le> x + x / 9007199254740992"
  using double_lower [OF assms] by simp_all

lemma cover_progress:
  assumes c0: "0 \<le> c"
    and guard: "double (c + double (1 / 100)) < D"
    and ratio: "D \<le> 2 ^ 52 * d"
  shows "c + d / 4 \<le> double (c + d)" and "c < 2 * D" and "0 < d"
proof -
  let ?t = "double (1 / 100)"
  have t: "1 / 128 \<le> ?t" by (rule centi_bounds)
  have n1: "2 powi (- 1022) \<le> c + ?t" using tiny t c0 by argo
  from double_lower_num(1) [OF n1] guard
  have g: "(c + ?t) - (c + ?t) / 9007199254740992 < D" by argo
  with t c0 have D: "1 / 256 < D" by argo
  from ratio have r: "D \<le> 4503599627370496 * d" by simp
  with D show d: "0 < d" by argo
  from D r have "1 / 2305843009213693952 \<le> d" by argo
  then have n2: "2 powi (- 1022) \<le> c + d" using tiny c0 by argo
  from double_lower_num(1) [OF n2] have "(c + d) - (c + d) / 9007199254740992 \<le> double (c + d)" .
  with g r t c0 d show "c + d / 4 \<le> double (c + d)" by argo
  from g t c0 show "c < 2 * D" by argo
qed

lemma coverLoopD_terminates:
  assumes ne: "pool library (coverPool segment) \<noteq> []"
    and pos: "\<forall>c \<in> set (pool library (coverPool segment)).
                seg_duration segment \<le> 2 ^ 52 * clip_duration c"
    and c0: "0 \<le> covered"
  shows "\<exists>r. coverLoopD library segment covered st = Some r"
proof -
  define m where "m = Min (clip_duration ` set (pool library (coverPool segment)))"
  have mle: "\<And>c. c \<in> set (pool library (coverPool segment)) \<Longrightarrow> m \<le> clip_duration c"
    unfolding m_def by simp
  have mmem: "m \<in> clip_duration ` set (pool library (coverPool segment))"
    unfolding m_def using ne by (intro Min_in) simp_all
  define need where "need = (\<lambda>covered. nat \<lceil>(2 * seg_duration segment - covered) * 4 / m\<rceil>)"
  from c0 show ?thesis
  proof (induction "need covered" arbitrary: covered st rule: less_induct)
    case less
    show ?case
    proof (cases "double (covered + double (1 / 100)) < seg_duration segment")
      case False
      then show ?thesis by (subst coverLoopD.simps) simp
    next
      case True
      from takeClipD_Inr [OF ne, of st] obtain clip st1
        where t: "takeClipD library (coverPool segment) st = Inr (clip, st1)"
          and mem: "clip \<in> set (pool library (coverPool segment))" by blast
      from mmem obtain cm where cm: "cm \<in> set (pool library (coverPool segment))" "m = clip_duration cm"
        by auto
      from cover_progress(3) [OF less.prems True] pos cm have mpos: "0 < m" by blast
      have d: "m \<le> clip_duration clip" using mle mem by blast
      from pos mem have ratio: "seg_duration segment \<le> 2 ^ 52 * clip_duration clip" by blast
      note prog = cover_progress(1,2) [OF less.prems True ratio]
      let ?c' = "double (covered + clip_duration clip)"
      have c'0: "0 \<le> ?c'" using prog(1) less.prems d mpos by linarith
      have "covered + m / 4 \<le> ?c'" using prog(1) d by linarith
      then have "(2 * seg_duration segment - ?c') * 4 / m
            \<le> (2 * seg_duration segment - covered - m / 4) * 4 / m"
        using mpos by (intro divide_right_mono mult_right_mono) simp_all
      also have "\<dots> = (2 * seg_duration segment - covered) * 4 / m - 1"
        using mpos by (simp add: field_simps)
      finally have "(2 * seg_duration segment - ?c') * 4 / m
            \<le> (2 * seg_duration segment - covered) * 4 / m - 1" .
      then have "\<lceil>(2 * seg_duration segment - ?c') * 4 / m\<rceil>
            \<le> \<lceil>(2 * seg_duration segment - covered) * 4 / m\<rceil> - 1"
        by (metis ceiling_diff_one ceiling_mono)
      moreover have "0 < \<lceil>(2 * seg_duration segment - covered) * 4 / m\<rceil>"
        using prog(2) mpos by (simp add: field_simps)
      ultimately have "need ?c' < need covered"
        unfolding need_def by linarith
      from less.hyps [OF this c'0, of st1] obtain r
        where "coverLoopD library segment ?c' st1 = Some r" by blast
      with True t show ?thesis by (subst coverLoopD.simps) simp
    qed
  qed
qed


lemma isDouble_advance: "isDouble t \<Longrightarrow> isDouble (advance t ps)"
  by (cases ps rule: rev_cases) simp_all

lemma advance_error:
  assumes d: "\<forall>p \<in> set ps. isDouble (clip_duration (pl_clip p)) \<and> 0 \<le> clip_duration (pl_clip p)"
    and t: "isDouble t" "0 \<le> t"
  shows "t \<le> advance t ps"
    and "\<bar>advance t ps - (t + durations ps)\<bar> \<le> real (length ps) * advance t ps / 2 ^ 53"
proof -
  have "t \<le> advance t ps \<and>
        \<bar>advance t ps - (t + durations ps)\<bar> \<le> real (length ps) * advance t ps / 2 ^ 53"
    using d t
  proof (induction ps arbitrary: t)
    case Nil
    then show ?case by (simp add: durations_def)
  next
    case (Cons p ps)
    let ?d = "clip_duration (pl_clip p)"
    let ?v = "double (t + ?d)"
    let ?A = "advance ?v ps"
    from Cons.prems have dp: "isDouble ?d" "0 \<le> ?d" by simp_all
    have v: "t \<le> ?v" using Cons.prems(2,3) dp(2) by (rule double_add_ge)
    then have v0: "0 \<le> ?v" using Cons.prems(3) by simp
    have e: "\<bar>?v - (t + ?d)\<bar> \<le> ?v / 2 ^ 53"
      using Cons.prems(2) dp(1) Cons.prems(3) dp(2) by (rule double_add_rel(1))
    from Cons.prems(1) have rest: "\<forall>p \<in> set ps. isDouble (clip_duration (pl_clip p)) \<and> 0 \<le> clip_duration (pl_clip p)"
      by simp
    from Cons.IH [OF rest isDouble_double v0]
    have ih: "?v \<le> ?A" "\<bar>?A - (?v + durations ps)\<bar> \<le> real (length ps) * ?A / 2 ^ 53" by simp_all
    have "?A - (t + durations (p # ps)) = (?A - (?v + durations ps)) + (?v - (t + ?d))"
      by (simp add: durations_def)
    then have "\<bar>?A - (t + durations (p # ps))\<bar> \<le> \<bar>?A - (?v + durations ps)\<bar> + \<bar>?v - (t + ?d)\<bar>"
      by (simp only: abs_triangle_ineq)
    also have "\<dots> \<le> real (length ps) * ?A / 2 ^ 53 + ?A / 2 ^ 53"
      using ih e by (intro add_mono) (simp_all add: divide_right_mono order_trans [OF e])
    also have "\<dots> = real (length (p # ps)) * ?A / 2 ^ 53" by (simp add: field_simps)
    finally have F: "\<bar>?A - (t + durations (p # ps))\<bar> \<le> real (length (p # ps)) * ?A / 2 ^ 53" .
    from v ih(1) have "t \<le> ?A" by simp
    with F show ?case by (simp only: advance_simps(2))
  qed
  then show "t \<le> advance t ps"
    and "\<bar>advance t ps - (t + durations ps)\<bar> \<le> real (length ps) * advance t ps / 2 ^ 53"
    by simp_all
qed

lemma cover_lower:
  assumes c0: "0 \<le> C" and exit: "D \<le> double (C + double (1 / 100))"
  shows "D - 1 / 100 - D / 2 ^ 51 \<le> C"
proof -
  let ?t = "double (1 / 100)"
  have t: "1 / 128 \<le> ?t" "?t \<le> 1 / 100 + 1 / 2 ^ 60" by (rule centi_bounds)+
  then have t': "?t \<le> 1 / 100 + 1 / 1152921504606846976" by simp
  have n1: "2 powi (- 1022) \<le> C + ?t" using tiny t c0 by argo
  from double_lower_num(2) [OF n1] exit
  have "D \<le> (C + ?t) + (C + ?t) / 9007199254740992" by argo
  with t' c0 have "D - 1 / 100 - D / 2251799813685248 \<le> C" by argo
  then show ?thesis by simp
qed

lemma cover_upper:
  assumes c0: "0 \<le> C'" and C': "isDouble C'" and d: "isDouble d" "0 \<le> d"
    and entry: "double (C' + double (1 / 100)) < D"
    and bD: "D \<le> 2 ^ 44" and bd: "d \<le> 2 ^ 44"
  shows "double (C' + d) - D < d"
proof -
  let ?t = "double (1 / 100)"
  have t: "1 / 100 \<le> ?t" by (rule centi_bounds)
  have n1: "2 powi (- 1022) \<le> C' + ?t" using tiny t c0 by argo
  from double_lower_num(1) [OF n1] entry
  have g: "(C' + ?t) - (C' + ?t) / 9007199254740992 < D" by argo
  from double_add_rel(2) [OF C' d(1) c0 d(2)]
  have "\<bar>double (C' + d) - (C' + d)\<bar> \<le> (C' + d) / 9007199254740992" by simp
  then have "double (C' + d) \<le> (C' + d) + (C' + d) / 9007199254740992" by argo
  moreover from bD bd have "D \<le> 17592186044416" "d \<le> 17592186044416" by simp_all
  ultimately show ?thesis using g t c0 d(2) by argo
qed

lemma rounding_values:
  "double (1 / 20) = 3602879701896397 / 72057594037927936"
  "double (3 / 25) = 1080863910568919 / 9007199254740992"
  "double (13 / 100) = 1170935903116329 / 9007199254740992"
  by code_simp+

text \<open>
  C3 as stated fails in the arithmetic of the code. For a talk segment of 0.13 s and a
  speechLoop pool of one clip of 0.12 s, the loop places one clip: the rounded sum
  0.12 + 0.01 is the double 0.13, which is not below the segment's duration. The one clip
  placed lasts less than the segment's duration minus 0.01, by about 8.7e-18 s.
\<close>

theorem C3_counterexample:
  "map_option (map_sum id (\<lambda>st. map (\<lambda>p. (clip_id (pl_clip p), pl_start p)) (st_placements st)))
     (coverSegmentD (groupClips roundingClips) (roundingSegments ! 1) initialState)
     = Some (Inr [(''loop'', 0)]) \<and>
   clip_duration (roundingClips ! 1) < seg_duration (roundingSegments ! 1) - 1 / 100 \<and>
   0 < clip_duration (roundingClips ! 1)"
proof -
  have "map_option (map_sum id (\<lambda>st. map (\<lambda>p. (clip_id (pl_clip p), pl_start p)) (st_placements st)))
     (coverSegmentD (groupClips roundingClips) (roundingSegments ! 1) initialState)
     = Some (Inr [(''loop'', 0)])"
    by code_simp
  then show ?thesis
    by (simp add: roundingClips_def roundingSegments_def rounding_values)
qed

text \<open>
  C3, amended. Let the pool that matches the segment's kind be non-empty, and let every
  clip of it have a duration that is a double, positive, at most \<open>2 ^ 44\<close> s and at
  least the segment's duration divided by \<open>2 ^ 52\<close>; let the segment last at most
  \<open>2 ^ 44\<close> s. Then the coverage loop returns. The clips it places are whole clips of
  that pool, each starting at the cursor left by the one before; no clip is split. The
  loop stops at the first running sum \<^verbatim>\<open>covered\<close> for which the rounded
  \<^verbatim>\<open>covered + 1e-2\<close> is no longer below the segment's duration: so \<^verbatim>\<open>covered\<close> is at
  least the duration minus 0.01 minus the duration times \<open>2 ^ - 51\<close>, it differs from the
  exact sum of the placed durations by at most their number times \<^verbatim>\<open>covered\<close> times
  \<open>2 ^ - 53\<close>, and when a clip was placed it exceeds the segment's duration by strictly
  less than the duration of the last clip placed. buildTimelinePlan runs this loop once
  for every segment, on the library it built from its clip list.
\<close>

theorem C3_coverSegment_rounded:
  assumes ne: "pool library (coverPool segment) \<noteq> []"
    and pos: "\<forall>c \<in> set (pool library (coverPool segment)).
                isDouble (clip_duration c) \<and> 0 < clip_duration c \<and>
                seg_duration segment \<le> 2 ^ 52 * clip_duration c \<and> clip_duration c \<le> 2 ^ 44"
    and bD: "seg_duration segment \<le> 2 ^ 44"
  shows "\<exists>st' new. coverSegmentD library segment st = Some (Inr st') \<and>
     st_placements st' = st_placements st @ new \<and>
     st_videoCursor st' = advance (st_videoCursor st) new \<and>
     pl_clip ` set new \<subseteq> set (pool library (coverPool segment)) \<and>
     abuttingD (st_videoCursor st) new \<and>
     seg_duration segment \<le> double (advance 0 new + double (1 / 100)) \<and>
     seg_duration segment - 1 / 100 - seg_duration segment / 2 ^ 51 \<le> advance 0 new \<and>
     \<bar>advance 0 new - durations new\<bar> \<le> real (length new) * advance 0 new / 2 ^ 53 \<and>
     (new = [] \<or> advance 0 new - seg_duration segment < lastDuration new)"
proof -
  have pos': "\<forall>c \<in> set (pool library (coverPool segment)). seg_duration segment \<le> 2 ^ 52 * clip_duration c"
    using pos by blast
  from coverLoopD_terminates [OF ne pos', of 0 st] obtain r
    where r: "coverLoopD library segment 0 st = Some r" by auto
  from coverLoopD_partial [OF r ne] obtain st' new
    where s: "r = Inr st'" and c: "coversD library segment 0 st st' new" by blast
  from c have sub: "pl_clip ` set new \<subseteq> set (pool library (coverPool segment))"
    and exit: "seg_duration segment \<le> double (advance 0 new + double (1 / 100))"
    and entry: "new = [] \<or> double (advance 0 (butlast new) + double (1 / 100)) < seg_duration segment"
    by (simp_all add: coversD_def)
  from sub pos have dd: "\<forall>p \<in> set new. isDouble (clip_duration (pl_clip p)) \<and> 0 \<le> clip_duration (pl_clip p)"
    by (auto simp: less_imp_le)
  note err = advance_error [OF dd isDouble_zero order_refl]
  have low: "seg_duration segment - 1 / 100 - seg_duration segment / 2 ^ 51 \<le> advance 0 new"
    using err(1) exit by (rule cover_lower)
  have up: "advance 0 new - seg_duration segment < lastDuration new" if n: "new \<noteq> []"
  proof -
    from n have split: "new = butlast new @ [last new]" by simp
    let ?C' = "advance 0 (butlast new)"
    have m: "last new \<in> set new" using n by simp
    with sub pos have dl: "isDouble (lastDuration new)" "0 \<le> lastDuration new" "lastDuration new \<le> 2 ^ 44"
      unfolding lastDuration_def by (auto simp: less_imp_le)
    have "\<forall>p \<in> set (butlast new). isDouble (clip_duration (pl_clip p)) \<and> 0 \<le> clip_duration (pl_clip p)"
      using dd by (auto dest: in_set_butlastD)
    from advance_error(1) [OF this isDouble_zero order_refl] have c0: "0 \<le> ?C'" .
    have iC: "isDouble ?C'" by (rule isDouble_advance) simp
    from entry n have e: "double (?C' + double (1 / 100)) < seg_duration segment" by simp
    have "advance 0 new = double (?C' + lastDuration new)"
      by (subst split) (simp only: advance_simps lastDuration_def)
    with cover_upper [OF c0 iC dl(1,2) e bD dl(3)] show ?thesis by simp
  qed
  from err(2) have ex: "\<bar>advance 0 new - durations new\<bar> \<le> real (length new) * advance 0 new / 2 ^ 53"
    by simp
  from r s c low up ex exit sub show ?thesis
    unfolding coverSegmentD_def coversD_def by (intro exI [of _ st'] exI [of _ new]) auto
qed


text \<open>The talk segment of the failing input satisfies the hypotheses of the amended C3.\<close>

theorem C3_coverSegment_rounded_witness:
  "pool (groupClips roundingClips) (coverPool (roundingSegments ! 1)) \<noteq> [] \<and>
   list_all (\<lambda>c. isDouble (clip_duration c) \<and> 0 < clip_duration c \<and>
                seg_duration (roundingSegments ! 1) \<le> 2 ^ 52 * clip_duration c \<and>
                clip_duration c \<le> 2 ^ 44)
     (pool (groupClips roundingClips) (coverPool (roundingSegments ! 1))) \<and>
   seg_duration (roundingSegments ! 1) \<le> 2 ^ 44 \<and>
   (\<exists>st' new.
     coverSegmentD (groupClips roundingClips) (roundingSegments ! 1) initialState = Some (Inr st') \<and>
     st_placements st' = st_placements initialState @ new \<and>
     st_videoCursor st' = advance (st_videoCursor initialState) new \<and>
     pl_clip ` set new \<subseteq> set (pool (groupClips roundingClips) (coverPool (roundingSegments ! 1))) \<and>
     abuttingD (st_videoCursor initialState) new \<and>
     seg_duration (roundingSegments ! 1) \<le> double (advance 0 new + double (1 / 100)) \<and>
     seg_duration (roundingSegments ! 1) - 1 / 100 - seg_duration (roundingSegments ! 1) / 2 ^ 51
       \<le> advance 0 new \<and>
     \<bar>advance 0 new - durations new\<bar> \<le> real (length new) * advance 0 new / 2 ^ 53 \<and>
     (new = [] \<or> advance 0 new - seg_duration (roundingSegments ! 1) < lastDuration new))"
proof -
  have p: "pool (groupClips roundingClips) (coverPool (roundingSegments ! 1)) = [roundingClips ! 1]"
    by (simp add: groupClips_def emptyLibrary_def roundingClips_def roundingSegments_def coverPool_def)
  have d: "isDouble (clip_duration (roundingClips ! 1))" by (simp add: roundingClips_def)
  have v: "0 < clip_duration (roundingClips ! 1)"
    "seg_duration (roundingSegments ! 1) \<le> 2 ^ 52 * clip_duration (roundingClips ! 1)"
    "clip_duration (roundingClips ! 1) \<le> 2 ^ 44" "seg_duration (roundingSegments ! 1) \<le> 2 ^ 44"
    by (simp_all add: roundingClips_def roundingSegments_def rounding_values)
  from C3_coverSegment_rounded [of "groupClips roundingClips" "roundingSegments ! 1" initialState] p d v
  show ?thesis by simp
qed

section \<open>Properties of the talk-segment merge\<close>

lemma successively_snoc:
  "successively P (xs @ [x]) \<longleftrightarrow> successively P xs \<and> (xs = [] \<or> P (last xs) x)"
  by (auto simp: successively_append_iff)

lemma mergeStep_push:
  "merged \<noteq> [] \<Longrightarrow> \<not> mergeable g (last merged) segment \<Longrightarrow> mergeStep g merged segment = merged @ [segment]"
  by (auto simp: mergeStep_def mergeable_def Let_def)

lemma mergeStep_merge:
  "merged \<noteq> [] \<Longrightarrow> mergeable g (last merged) segment \<Longrightarrow>
     mergeStep g merged segment =
       butlast merged @ [(last merged)\<lparr>seg_duration := seg_start segment + seg_duration segment - seg_start (last merged)\<rparr>]"
  by (auto simp: mergeStep_def mergeable_def Let_def)

lemma mergeable_left_duration [simp]:
  "mergeable g a (b\<lparr>seg_duration := d\<rparr>) = mergeable g a b"
  by (simp add: mergeable_def)

lemma settled_mergeStep:
  assumes "settled g merged"
  shows "settled g (mergeStep g merged segment)"
proof (cases "merged = []")
  case True
  then show ?thesis by (simp add: mergeStep_def settled_def)
next
  case False
  then obtain xs x where m: "merged = xs @ [x]" by (metis append_butlast_last_id)
  show ?thesis
  proof (cases "mergeable g (last merged) segment")
    case True
    with False assms m show ?thesis
      by (simp add: mergeStep_merge settled_def successively_snoc)
  next
    case no: False
    with False assms show ?thesis
      by (simp add: mergeStep_push settled_def successively_snoc)
  qed
qed

lemma settled_foldl_mergeStep:
  "settled g merged \<Longrightarrow> settled g (foldl (mergeStep g) merged segments)"
  by (induction segments arbitrary: merged) (simp_all add: settled_mergeStep)

lemma foldl_mergeStep_settled:
  "merged \<noteq> [] \<Longrightarrow> settled g (merged @ segments) \<Longrightarrow>
     foldl (mergeStep g) merged segments = merged @ segments"
proof (induction segments arbitrary: merged)
  case Nil
  then show ?case by simp
next
  case (Cons s segments)
  from Cons.prems have "\<not> mergeable g (last merged) s"
    by (auto simp: settled_def successively_append_iff successively_Cons)
  with Cons.prems(1) have "mergeStep g merged s = merged @ [s]" by (rule mergeStep_push)
  moreover have "foldl (mergeStep g) (merged @ [s]) segments = (merged @ [s]) @ segments"
    using Cons.prems(2) by (intro Cons.IH) simp_all
  ultimately show ?case by simp
qed

lemma mergeAdjacentTalkSegments_settled:
  "settled g (mergeAdjacentTalkSegments segments g)"
proof (cases "segments = []")
  case True
  then show ?thesis by (simp add: mergeAdjacentTalkSegments_def settled_def)
next
  case False
  have "settled g []" by (simp add: settled_def)
  then have "settled g (foldl (mergeStep g) [] segments)" by (rule settled_foldl_mergeStep)
  with False show ?thesis by (simp add: mergeAdjacentTalkSegments_def)
qed

lemma mergeAdjacentTalkSegments_fixed:
  assumes "settled g segments"
  shows "mergeAdjacentTalkSegments segments g = segments"
proof (cases segments)
  case Nil
  then show ?thesis by (simp add: mergeAdjacentTalkSegments_def)
next
  case (Cons s rest)
  have "foldl (mergeStep g) [s] rest = [s] @ rest"
    using assms Cons by (intro foldl_mergeStep_settled) simp_all
  with Cons show ?thesis by (simp add: mergeAdjacentTalkSegments_def mergeStep_def)
qed

text \<open>
  C9. Applying mergeAdjacentTalkSegments with the default gap tolerance of 0.05 s to its
  own output gives that output back, for every segment list.
\<close>

theorem C9_merge_idempotent:
  "mergeAdjacentTalkSegments (mergeAdjacentTalkSegments segments TALK_GAP_TOLERANCE_SEC)
       TALK_GAP_TOLERANCE_SEC
     = mergeAdjacentTalkSegments segments TALK_GAP_TOLERANCE_SEC"
  by (rule mergeAdjacentTalkSegments_fixed) (rule mergeAdjacentTalkSegments_settled)

section \<open>Properties of the energy windower\<close>

text \<open>
  C8 as stated fails: at 8010 Hz the window is 640 samples, the floor of 640.8, where
  rounding gives 641; the window duration follows the 640.
\<close>

theorem C8_counterexample:
  "blockSizeOf oddRateBuffer = 640 \<and>
   nat (max 1 (round (ab_sampleRate oddRateBuffer * WINDOW_SIZE_SEC))) = 641 \<and>
   res_windowDuration (analyzeAudio oddRateBuffer) = 640 / 8010"
  by (simp add: oddRateBuffer_def blockSizeOf_def WINDOW_SIZE_SEC_def round_def analyzeAudio_def
      windowDurationOf_def Let_def)

text \<open>
  C8, amended. For every sample rate, analyzeAudio takes
  max(1, floor(sampleRate * 0.08)) samples per window, computes
  ceil(totalSamples / windowSamples) loudness values, and reports the window duration
  windowSamples / sampleRate.
\<close>

theorem C8_window_geometry:
  "blockSizeOf audioBuffer = nat (max 1 \<lfloor>ab_sampleRate audioBuffer * WINDOW_SIZE_SEC\<rfloor>) \<and>
   WINDOW_SIZE_SEC = 8 / 100 \<and>
   length (res_rmsValues (analyzeAudio audioBuffer))
     = nat \<lceil>real (ab_length audioBuffer) / real (blockSizeOf audioBuffer)\<rceil> \<and>
   res_windowDuration (analyzeAudio audioBuffer)
     = real (blockSizeOf audioBuffer) / ab_sampleRate audioBuffer"
  by (simp add: blockSizeOf_def WINDOW_SIZE_SEC_def analyzeAudio_def Let_def rmsValuesOf_def
      blockCountOf_def windowDurationOf_def)

text \<open>The amended C8 at the 8010 Hz buffer.\<close>

theorem C8_window_geometry_witness:
  "blockSizeOf oddRateBuffer = nat (max 1 \<lfloor>ab_sampleRate oddRateBuffer * WINDOW_SIZE_SEC\<rfloor>) \<and>
   blockSizeOf oddRateBuffer = 640 \<and>
   length (res_rmsValues (analyzeAudio oddRateBuffer)) = 0 \<and>
   res_windowDuration (analyzeAudio oddRateBuffer) = 640 / 8010"
  using C8_window_geometry [of oddRateBuffer]
  by (simp add: oddRateBuffer_def WINDOW_SIZE_SEC_def)

section \<open>Properties of the PCM encoder\<close>

lemma length_setters [simp]:
  "length (setUint8 view offset b) = length view"
  "length (setUint16 view offset w) = length view"
  "length (setInt16 view offset w) = length view"
  "length (setUint32 view offset d) = length view"
  by (simp_all add: setUint8_def setUint16_def setInt16_def setUint32_def)

lemma length_writeString [simp]: "length (writeString view offset text) = length view"
proof -
  have "length (foldl (\<lambda>view i. setUint8 view (offset + i) (of_char (text ! i))) view is) = length view" for "is"
    by (induction "is" arbitrary: view) simp_all
  then show ?thesis by (simp add: writeString_def)
qed

lemma length_putSamples [simp]: "length (putSamples view offset ws) = length view"
  by (induction ws arbitrary: view offset) simp_all

lemma putSamples_append:
  "putSamples view offset (xs @ ys) = putSamples (putSamples view offset xs) (offset + 2 * length xs) ys"
  by (induction xs arbitrary: view offset) simp_all

lemma foldl_writeSample:
  "foldl (writeSample channelData i) (view, offset) cs =
     (putSamples view offset (map (\<lambda>channel. encodeSample (channelData ! channel ! i)) cs),
      offset + 2 * length cs)"
  by (induction cs arbitrary: view offset) (simp_all add: writeSample_def)

lemma foldl_writeFrame:
  "foldl (writeFrame channelData numChannels) (view, offset) frames =
     (putSamples view offset
        (concat (map (\<lambda>i. map (\<lambda>channel. encodeSample (channelData ! channel ! i)) [0..<numChannels]) frames)),
      offset + 2 * (numChannels * length frames))"
  by (induction frames arbitrary: view offset)
     (simp_all add: writeFrame_def foldl_writeSample putSamples_append algebra_simps)

lemma putSamples_below:
  "j < offset \<Longrightarrow> putSamples view offset ws ! j = view ! j"
  by (induction ws arbitrary: view offset) (simp_all add: setInt16_def setUint16_def)

lemma putSamples_at:
  assumes "offset + 2 * length ws \<le> length view" and "k < length ws"
  shows "putSamples view offset ws ! (offset + 2 * k) = ucast (ws ! k) \<and>
         putSamples view offset ws ! (offset + 2 * k + 1) = ucast (drop_bit 8 (ws ! k))"
  using assms
proof (induction ws arbitrary: view offset k)
  case Nil
  then show ?case by simp
next
  case (Cons w ws)
  show ?case
  proof (cases k)
    case 0
    with Cons.prems show ?thesis
      by (simp add: putSamples_below setInt16_def setUint16_def)
  next
    case (Suc k')
    with Cons.prems have "offset + 2 + 2 * length ws \<le> length (setInt16 view offset w)" "k' < length ws"
      by simp_all
    from Cons.IH [OF this] Suc show ?thesis by (simp add: algebra_simps)
  qed
qed

lemma nth_concat_rows:
  assumes "i < n" and "c < m"
  shows "concat (map (\<lambda>i. map (f i) [0..<m]) [0..<n]) ! (i * m + c) = f i c"
  using assms
proof (induction n)
  case 0
  then show ?case by simp
next
  case (Suc n)
  have len: "length (concat (map (\<lambda>i. map (f i) [0..<m]) [0..<n])) = n * m"
    by (induction n) simp_all
  show ?case
  proof (cases "i < n")
    case True
    then have "i * m + c < n * m"
      using Suc.prems(2) by (metis add.commute mult.commute mult_Suc_right nat_add_left_cancel_less
          Suc_leI mult_le_mono1 less_le_trans add_less_cancel_left)
    with True Suc show ?thesis by (simp add: nth_append len)
  next
    case False
    with Suc.prems have "i = n" by simp
    with Suc.prems show ?thesis by (simp add: nth_append len)
  qed
qed

lemma length_interleaved: "length (interleaved buffer) = ab_length buffer * ab_numberOfChannels buffer"
proof -
  have "length (concat (map (\<lambda>i. map (f i) [0..<m]) [0..<n])) = n * m" for f :: "nat \<Rightarrow> nat \<Rightarrow> 16 word" and m n
    by (induction n) simp_all
  then show ?thesis by (simp add: interleaved_def)
qed

lemma getInt16_pair:
  fixes w :: "16 word"
  assumes "view ! offset = ucast w" and "view ! (offset + 1) = ucast (drop_bit 8 w)"
  shows "getInt16 view offset = sint w"
proof -
  have "(ucast (ucast w :: 8 word) :: 16 word) OR push_bit 8 (ucast (ucast (drop_bit 8 w) :: 8 word)) = w"
    by (rule bit_eqI) (auto simp: bit_simps)
  with assms show ?thesis by (simp add: getInt16_def getUint16_def)
qed

lemma toInteger_scaled_range:
  assumes "- 1 \<le> s" and "s \<le> 1"
  shows "- 32768 \<le> toInteger (if s < 0 then s * 32768 else s * 32767)"
    and "toInteger (if s < 0 then s * 32768 else s * 32767) \<le> 32767"
proof -
  show "- 32768 \<le> toInteger (if s < 0 then s * 32768 else s * 32767)"
  proof (cases "s < 0")
    case True
    have "(- 32768 :: real) \<le> s * 32768" using assms(1) by simp
    then have "- 32768 \<le> \<lceil>s * 32768\<rceil>" by (simp add: le_ceiling_iff)
    with True show ?thesis by (simp add: toInteger_def mult_less_0_iff)
  next
    case False
    then have "0 \<le> s * 32767" by simp
    then have "0 \<le> \<lfloor>s * 32767\<rfloor>" by simp
    with False show ?thesis by (simp add: toInteger_def mult_less_0_iff)
  qed
  show "toInteger (if s < 0 then s * 32768 else s * 32767) \<le> 32767"
  proof (cases "s < 0")
    case True
    then have "s * 32768 \<le> 0" by simp
    then have "\<lceil>s * 32768\<rceil> \<le> 0" by (simp add: ceiling_le_iff)
    with True show ?thesis by (simp add: toInteger_def mult_less_0_iff)
  next
    case False
    have "s * 32767 \<le> 32767" using assms(2) by simp
    then have "\<lfloor>s * 32767\<rfloor> \<le> 32767" by (simp add: floor_le_iff)
    with False show ?thesis by (simp add: toInteger_def mult_less_0_iff)
  qed
qed

lemma sint_encodeSample:
  "sint (encodeSample sample0) =
     toInteger (let sample = max (- 1) (min 1 sample0)
               in if sample < 0 then sample * 32768 else sample * 32767)"
proof -
  define s where "s = max (- 1) (min 1 sample0)"
  have "- 1 \<le> s" "s \<le> 1" by (simp_all add: s_def)
  from toInteger_scaled_range [OF this]
  have "sint (word_of_int (toInteger (if s < 0 then s * 32768 else s * 32767)) :: 16 word)
          = toInteger (if s < 0 then s * 32768 else s * 32767)"
    by (simp add: sint_sbintrunc' signed_take_bit_int_eq_self_iff del: if_split)
  then show ?thesis by (simp add: encodeSample_def toInt16_def Let_def s_def [symmetric])
qed

lemma audioBufferToWav_putSamples:
  "\<exists>header. length header = 44 + 2 * (ab_length buffer * ab_numberOfChannels buffer) \<and>
     audioBufferToWav buffer = putSamples header 44 (interleaved buffer)"
proof -
  have ba: "ab_numberOfChannels buffer * 16 div 8 = 2 * ab_numberOfChannels buffer" by simp
  show ?thesis
    unfolding audioBufferToWav_def Let_def foldl_writeFrame ba interleaved_def fst_conv
    apply (rule exI)
    apply (rule conjI [rotated])
     apply (rule refl)
    apply (simp add: algebra_simps)
    done
qed

lemma getInt16_audioBufferToWav:
  assumes "i < ab_length buffer" and "channel < ab_numberOfChannels buffer"
  shows "getInt16 (audioBufferToWav buffer) (44 + 2 * (i * ab_numberOfChannels buffer + channel))
           = sint (encodeSample (ab_channels buffer ! channel ! i))"
proof -
  from audioBufferToWav_putSamples obtain header
    where len: "length header = 44 + 2 * (ab_length buffer * ab_numberOfChannels buffer)"
      and wav: "audioBufferToWav buffer = putSamples header 44 (interleaved buffer)" by blast
  let ?k = "i * ab_numberOfChannels buffer + channel"
  have k: "?k < length (interleaved buffer)"
  proof -
    have "?k < i * ab_numberOfChannels buffer + ab_numberOfChannels buffer" using assms(2) by simp
    also have "\<dots> = Suc i * ab_numberOfChannels buffer" by simp
    also have "\<dots> \<le> ab_length buffer * ab_numberOfChannels buffer"
      using assms(1) by (intro mult_le_mono1) simp
    finally show ?thesis by (simp add: length_interleaved)
  qed
  have at: "interleaved buffer ! ?k = encodeSample (ab_channels buffer ! channel ! i)"
    unfolding interleaved_def using assms by (rule nth_concat_rows)
  have "44 + 2 * length (interleaved buffer) \<le> length header"
    by (simp add: len length_interleaved)
  from putSamples_at [OF this k] at wav show ?thesis
    by (intro getInt16_pair) simp_all
qed

lemma audioBufferToWav_wavExample: "audioBufferToWav wavExample = wavExampleBytes"
  by code_simp

lemma wavExampleBytes_fields:
  "getUint32 wavExampleBytes 4 = 44 \<and> getUint16 wavExampleBytes 22 = 1 \<and>
   getUint32 wavExampleBytes 24 = 8000 \<and> getUint32 wavExampleBytes 28 = 16000 \<and>
   getUint16 wavExampleBytes 32 = 2 \<and> getUint16 wavExampleBytes 34 = 16 \<and>
   getUint32 wavExampleBytes 40 = 8 \<and>
   map (getInt16 wavExampleBytes) [44, 46, 48, 50] = [0, 32767, - 32768, 16383]"
  by code_simp

text \<open>
  C5 as stated fails at the last sample: 0.5 is scaled by 32767 to 16383.5, and the
  store truncates it to 16383, not 16384.
\<close>

theorem C5_counterexample:
  "map (getInt16 (audioBufferToWav wavExample)) [44, 46, 48, 50] = [0, 32767, - 32768, 16383] \<and>
   getInt16 (audioBufferToWav wavExample) 50 \<noteq> 16384"
  by code_simp

text \<open>
  C5, amended. Encoding the one-channel, 8000 Hz buffer with samples 0.0, 1.0, -1.0, 0.5
  gives ChunkSize 44, NumChannels 1, SampleRate 8000, ByteRate 16000, BlockAlign 2,
  BitsPerSample 16, Subchunk2Size 8 and the little-endian int16 samples 0, 32767, -32768,
  16383. In general the int16 stored for frame \<open>i\<close> and channel \<open>channel\<close>, at offset
  44 + 2 * (i * channels + channel), is the sample clamped to [-1, 1], multiplied by
  32768 when negative and by 32767 otherwise, and truncated towards zero.
\<close>

theorem C5_wav_encoding:
  "audioBufferToWav wavExample = wavExampleBytes \<and>
   getUint32 wavExampleBytes 4 = 44 \<and> getUint16 wavExampleBytes 22 = 1 \<and>
   getUint32 wavExampleBytes 24 = 8000 \<and> getUint32 wavExampleBytes 28 = 16000 \<and>
   getUint16 wavExampleBytes 32 = 2 \<and> getUint16 wavExampleBytes 34 = 16 \<and>
   getUint32 wavExampleBytes 40 = 8 \<and>
   map (getInt16 wavExampleBytes) [44, 46, 48, 50] = [0, 32767, - 32768, 16383] \<and>
   (i < ab_length buffer \<and> channel < ab_numberOfChannels buffer \<longrightarrow>
      getInt16 (audioBufferToWav buffer) (44 + 2 * (i * ab_numberOfChannels buffer + channel))
        = toInteger (let sample = max (- 1) (min 1 (ab_channels buffer ! channel ! i))
                    in if sample < 0 then sample * 32768 else sample * 32767))"
  using audioBufferToWav_wavExample wavExampleBytes_fields
    getInt16_audioBufferToWav [of i buffer channel]
    sint_encodeSample [of "ab_channels buffer ! channel ! i"]
  by simp

text \<open>The general part of C5 at the last sample of the test buffer.\<close>

theorem C5_wav_encoding_witness:
  "3 < ab_length wavExample \<and> 0 < ab_numberOfChannels wavExample \<and>
   ab_channels wavExample ! 0 ! 3 = 1 / 2 \<and>
   getInt16 (audioBufferToWav wavExample) (44 + 2 * (3 * ab_numberOfChannels wavExample + 0)) = 16383"
  using C5_wav_encoding [of 3 wavExample 0]
  by (simp add: wavExample_def ab_numberOfChannels_def toInteger_def)

section \<open>Properties of the realigner\<close>











section \<open>Properties of the segmenter\<close>












lemma linked_silenceBlocks [simp]: "linked g (sc\<lparr>sc_silenceBlocks := b\<rparr>) = linked g sc"
  by (simp add: linked_def Let_def)























section \<open>What buildTimelinePlan leaves untouched\<close>

text \<open>On values: every placed clip is one of the clips of the input list.\<close>

lemma buildTimelinePlan_placedFrom:
  assumes run: "buildTimelinePlan segments clips = Some (Inr plan)"
  shows "pl_clip ` set (placements plan) \<subseteq> set clips"
proof -
  note pools = buildTimelinePlan_Inr_pools [OF run]
  let ?lib = "groupClips clips"
  have init: "placedFrom ?lib initialState" by (simp add: placedFrom_def initialState_def)
  have "\<exists>st'. (Inr plan :: error + TimelinePlan) = Inr \<lparr>placements = st_placements st',
          talkPlans = st_talkPlans st', totalDuration = st_videoCursor st'\<rparr> \<and> placedFrom ?lib st'"
    by (rule buildTimelinePlan_partial [where P = "placedFrom ?lib", OF run pools [THEN conjunct1]
        pools [THEN conjunct2] init]) (rule placedFrom_step)
  then obtain st' where "plan = \<lparr>placements = st_placements st',
          talkPlans = st_talkPlans st', totalDuration = st_videoCursor st'\<rparr>" "placedFrom ?lib st'" by auto
  moreover have "(\<Union>ty. set (pool ?lib ty)) \<subseteq> set clips" by (auto simp: pool_groupClips)
  ultimately show ?thesis by (auto simp: placedFrom_def)
qed

lemma frame_refl [simp]: "frame n h h"
  by (simp add: frame_def)

lemma frame_trans: "frame n h h' \<Longrightarrow> frame n h' h'' \<Longrightarrow> frame n h h''"
  by (auto simp: frame_def)

lemma poolRef_cases:
  "poolRef lib ty \<in> {lr_idle lib, lr_idleToSpeech lib, lr_speechLoop lib, lr_speechToIdle lib}"
  by (cases ty) simp_all

lemma frame_alloc:
  assumes "alloc ob h = (a, h')" and "n \<le> h_next h"
  shows "frame n h h'"
  using assms by (auto simp: alloc_def frame_def)

lemma frame_push:
  assumes "push a x h = Some h'" and "n \<le> a"
  shows "frame n h h'"
  using assms by (auto simp: push_def frame_def split: option.splits)

lemma alloc_facts:
  assumes "alloc ob h = (a, h')"
  shows "a = h_next h" and "h_next h' = Suc (h_next h)" and "h_cells h' a = Some ob"
    and "\<And>b. b \<noteq> h_next h \<Longrightarrow> h_cells h' b = h_cells h b"
  using assms by (auto simp: alloc_def)

lemma push_facts:
  assumes "push a x h = Some h'"
  shows "h_next h' = h_next h"
    and "\<exists>xs. arrayOf h a = Some xs \<and> arrayOf h' a = Some (xs @ [x])"
    and "\<And>b. b \<noteq> a \<Longrightarrow> h_cells h' b = h_cells h b"
  using assms by (auto simp: push_def arrayOf_def split: option.splits obj.splits)

lemma arrayOf_cong: "h_cells h' a = h_cells h a \<Longrightarrow> arrayOf h' a = arrayOf h a"
  by (simp add: arrayOf_def)

lemma clipOf_cong: "h_cells h' a = h_cells h a \<Longrightarrow> clipOf h' a = clipOf h a"
  by (simp add: clipOf_def)

lemma libraryInvD:
  assumes "libraryInv n C lib h"
  shows "n \<le> poolRef lib ty" and "poolRef lib ty < h_next h"
    and "\<exists>xs. arrayOf h (poolRef lib ty) = Some xs \<and> set xs \<subseteq> C"
  using assms by (simp_all add: libraryInv_def)

lemma libraryInvI:
  assumes "\<And>ty. n \<le> poolRef lib ty \<and> poolRef lib ty < h_next h \<and>
           (\<exists>xs. arrayOf h (poolRef lib ty) = Some xs \<and> set xs \<subseteq> C)"
    and "distinct [lr_idle lib, lr_idleToSpeech lib, lr_speechLoop lib, lr_speechToIdle lib]"
  shows "libraryInv n C lib h"
  using assms unfolding libraryInv_def by blast

lemma libraryInv_distinct:
  "libraryInv n C lib h \<Longrightarrow> distinct [lr_idle lib, lr_idleToSpeech lib, lr_speechLoop lib, lr_speechToIdle lib]"
  by (simp add: libraryInv_def)

lemma libraryInv_alloc:
  assumes "alloc ob h = (a, h')" and "libraryInv n C lib h"
  shows "libraryInv n C lib h'"
proof (rule libraryInvI)
  note af = alloc_facts [OF assms(1)]
  fix ty
  note d = libraryInvD [OF assms(2), of ty]
  from d(2) have "arrayOf h' (poolRef lib ty) = arrayOf h (poolRef lib ty)"
    by (intro arrayOf_cong af(4)) simp
  with d af(2) show "n \<le> poolRef lib ty \<and> poolRef lib ty < h_next h' \<and>
           (\<exists>xs. arrayOf h' (poolRef lib ty) = Some xs \<and> set xs \<subseteq> C)" by simp
next
  show "distinct [lr_idle lib, lr_idleToSpeech lib, lr_speechLoop lib, lr_speechToIdle lib]"
    using assms(2) by (rule libraryInv_distinct)
qed

lemma libraryInv_push_other:
  assumes "push a x h = Some h'" and "libraryInv n C lib h" and "\<And>ty. poolRef lib ty \<noteq> a"
  shows "libraryInv n C lib h'"
proof (rule libraryInvI)
  note pf = push_facts [OF assms(1)]
  fix ty
  note d = libraryInvD [OF assms(2), of ty]
  have "arrayOf h' (poolRef lib ty) = arrayOf h (poolRef lib ty)"
    by (intro arrayOf_cong pf(3) assms(3))
  with d pf(1) show "n \<le> poolRef lib ty \<and> poolRef lib ty < h_next h' \<and>
           (\<exists>xs. arrayOf h' (poolRef lib ty) = Some xs \<and> set xs \<subseteq> C)" by simp
next
  show "distinct [lr_idle lib, lr_idleToSpeech lib, lr_speechLoop lib, lr_speechToIdle lib]"
    using assms(2) by (rule libraryInv_distinct)
qed

lemma libraryInv_push_pool:
  assumes p: "push (poolRef lib ty) x h = Some h'" and inv: "libraryInv n C lib h" and x: "x \<in> C"
  shows "libraryInv n C lib h'"
proof (rule libraryInvI)
  note pf = push_facts [OF p]
  fix ty'
  note d = libraryInvD [OF inv, of ty']
  have "\<exists>xs. arrayOf h' (poolRef lib ty') = Some xs \<and> set xs \<subseteq> C"
  proof (cases "poolRef lib ty' = poolRef lib ty")
    case True
    from d(3) obtain xs where xs: "arrayOf h (poolRef lib ty') = Some xs" "set xs \<subseteq> C" by blast
    with pf(2) True have "arrayOf h' (poolRef lib ty') = Some (xs @ [x])" by auto
    with xs x show ?thesis by simp
  next
    case False
    then have "arrayOf h' (poolRef lib ty') = arrayOf h (poolRef lib ty')"
      by (intro arrayOf_cong pf(3))
    with d(3) show ?thesis by simp
  qed
  with d pf(1) show "n \<le> poolRef lib ty' \<and> poolRef lib ty' < h_next h' \<and>
           (\<exists>xs. arrayOf h' (poolRef lib ty') = Some xs \<and> set xs \<subseteq> C)" by simp
next
  show "distinct [lr_idle lib, lr_idleToSpeech lib, lr_speechLoop lib, lr_speechToIdle lib]"
    using inv by (rule libraryInv_distinct)
qed

text \<open>The reducer of groupClips keeps the library's invariant and the frame.\<close>

lemma reduceClips_inv:
  assumes run: "reduceClips acc clipsRef k m h = (r, h')"
    and fr: "frame n h0 h" and inv: "libraryInv n C acc h"
    and clips: "arrayOf h0 clipsRef = Some cs0" "clipsRef < n" "set cs0 \<subseteq> C"
  shows "frame n h0 h' \<and> libraryInv n C acc h'"
  using run fr inv
proof (induction m arbitrary: k h)
  case 0
  then show ?case by simp
next
  case (Suc m)
  from Suc.prems(2) clips(2) have "h_cells h clipsRef = h_cells h0 clipsRef" by (simp add: frame_def)
  then have arr: "arrayOf h clipsRef = Some cs0" using clips(1) by (simp add: arrayOf_def)
  show ?case
  proof (cases "k < length cs0")
    case False
    with Suc.prems(1) arr have "reduceClips acc clipsRef (Suc k) m h = (r, h')" by simp
    from Suc.IH [OF this Suc.prems(2,3)] show ?thesis .
  next
    case True
    show ?thesis
    proof (cases "clipOf h (cs0 ! k)")
      case None
      with Suc.prems arr True show ?thesis by simp
    next
      case (Some clip)
      show ?thesis
      proof (cases "push (poolRef acc (clip_type clip)) (cs0 ! k) h")
        case None
        with Suc.prems arr True Some show ?thesis by simp
      next
        case (Some h1)
        with Suc.prems(1) arr True \<open>clipOf h (cs0 ! k) = Some clip\<close>
        have run': "reduceClips acc clipsRef (Suc k) m h1 = (r, h')" by simp
        have "cs0 ! k \<in> C" using True clips(3) by (meson nth_mem subsetD)
        with Some Suc.prems(3) have inv1: "libraryInv n C acc h1" by (rule libraryInv_push_pool)
        have "frame n h h1"
          using Some libraryInvD(1) [OF Suc.prems(3)] by (rule frame_push)
        with Suc.prems(2) have "frame n h0 h1" by (rule frame_trans)
        from Suc.IH [OF run' this inv1] show ?thesis .
      qed
    qed
  qed
qed

lemma groupClipsH_inv:
  assumes run: "groupClipsH clipsRef h = (r, h')"
    and clips: "arrayOf h clipsRef = Some cs0" "clipsRef < h_next h"
  shows "frame (h_next h) h h'"
    and "r = Inr lib \<Longrightarrow> libraryInv (h_next h) (set cs0) lib h'"
proof -
  let ?n = "h_next h"
  obtain a1 h1 where a1: "alloc (ArrayObj []) h = (a1, h1)" by (cases "alloc (ArrayObj []) h")
  obtain a2 h2 where a2: "alloc (ArrayObj []) h1 = (a2, h2)" by (cases "alloc (ArrayObj []) h1")
  obtain a3 h3 where a3: "alloc (ArrayObj []) h2 = (a3, h3)" by (cases "alloc (ArrayObj []) h2")
  obtain a4 h4 where a4: "alloc (ArrayObj []) h3 = (a4, h4)" by (cases "alloc (ArrayObj []) h3")
  define acc where "acc = \<lparr>lr_idle = a1, lr_idleToSpeech = a2, lr_speechLoop = a3, lr_speechToIdle = a4\<rparr>"
  note f1 = alloc_facts [OF a1] and f2 = alloc_facts [OF a2]
    and f3 = alloc_facts [OF a3] and f4 = alloc_facts [OF a4]
  have addrs: "a1 = ?n" "a2 = Suc ?n" "a3 = Suc (Suc ?n)" "a4 = Suc (Suc (Suc ?n))"
    "h_next h4 = Suc (Suc (Suc (Suc ?n)))"
    using f1(1,2) f2(1,2) f3(1,2) f4(1,2) by simp_all
  have cells: "h_cells h4 a1 = Some (ArrayObj [])" "h_cells h4 a2 = Some (ArrayObj [])"
    "h_cells h4 a3 = Some (ArrayObj [])" "h_cells h4 a4 = Some (ArrayObj [])"
    using f1 f2 f3 f4 by (simp_all add: addrs)
  have fr4: "frame ?n h h4"
    using frame_alloc [OF a1, of ?n] frame_alloc [OF a2, of ?n] frame_alloc [OF a3, of ?n]
      frame_alloc [OF a4, of ?n] f1(2) f2(2) f3(2)
    by (auto intro: frame_trans)
  have inv4: "libraryInv ?n (set cs0) acc h4"
  proof (rule libraryInvI)
    fix ty
    show "?n \<le> poolRef acc ty \<and> poolRef acc ty < h_next h4 \<and>
           (\<exists>xs. arrayOf h4 (poolRef acc ty) = Some xs \<and> set xs \<subseteq> set cs0)"
      using cells by (cases ty) (simp_all add: acc_def addrs arrayOf_def)
  next
    show "distinct [lr_idle acc, lr_idleToSpeech acc, lr_speechLoop acc, lr_speechToIdle acc]"
      by (simp add: acc_def addrs)
  qed
  obtain r1 h5 where red: "reduceClips acc clipsRef 0 (length cs0) h4 = (r1, h5)"
    by (cases "reduceClips acc clipsRef 0 (length cs0) h4")
  from reduceClips_inv [OF red fr4 inv4 clips(1,2)]
  have res: "frame ?n h h5" "libraryInv ?n (set cs0) acc h5" by simp_all
  from run clips(1) a1 a2 a3 a4 red have out: "h' = h5" "r = (case r1 of Inl e \<Rightarrow> Inl e | Inr _ \<Rightarrow> Inr acc)"
    by (auto simp: groupClipsH_def acc_def split: sum.splits)
  from res out show "frame (h_next h) h h'" by simp
  from res out show "r = Inr lib \<Longrightarrow> libraryInv (h_next h) (set cs0) lib h'"
    by (auto split: sum.splits)
qed

lemma outputInvD:
  assumes "outputInv n C lib placementsRef talkPlansRef h"
  shows "n \<le> placementsRef" "placementsRef < h_next h" "n \<le> talkPlansRef" "talkPlansRef < h_next h"
    "placementsRef \<noteq> talkPlansRef" "poolRef lib ty \<noteq> placementsRef" "poolRef lib ty \<noteq> talkPlansRef"
    "\<exists>ps. arrayOf h placementsRef = Some ps \<and>
        (\<forall>p \<in> set ps. p < h_next h \<and> (\<exists>c st. h_cells h p = Some (PlacementObj c st) \<and> c \<in> C))"
  using assms by (simp_all add: outputInv_def)

lemma outputInvI:
  assumes "n \<le> placementsRef" "placementsRef < h_next h" "n \<le> talkPlansRef" "talkPlansRef < h_next h"
    "placementsRef \<noteq> talkPlansRef" "\<And>ty. poolRef lib ty \<noteq> placementsRef" "\<And>ty. poolRef lib ty \<noteq> talkPlansRef"
    "arrayOf h placementsRef = Some ps"
    "\<And>p. p \<in> set ps \<Longrightarrow> p < h_next h \<and> (\<exists>c st. h_cells h p = Some (PlacementObj c st) \<and> c \<in> C)"
  shows "outputInv n C lib placementsRef talkPlansRef h"
  using assms unfolding outputInv_def by blast

lemma schedInv_alloc:
  assumes a: "alloc ob h = (a, h')" and inv: "schedInv n C lib pRef tRef h0 h"
  shows "schedInv n C lib pRef tRef h0 h'"
proof -
  from inv have fr: "frame n h0 h" and li: "libraryInv n C lib h"
    and ou: "outputInv n C lib pRef tRef h" by (simp_all add: schedInv_def)
  note af = alloc_facts [OF a]
  note od = outputInvD [OF ou]
  from od(1,2) have "n \<le> h_next h" by simp
  with a have "frame n h h'" by (rule frame_alloc)
  with fr have fr': "frame n h0 h'" by (rule frame_trans)
  from a li have li': "libraryInv n C lib h'" by (rule libraryInv_alloc)
  from od(8) obtain ps where ps: "arrayOf h pRef = Some ps"
    and el: "\<forall>p \<in> set ps. p < h_next h \<and> (\<exists>c st. h_cells h p = Some (PlacementObj c st) \<and> c \<in> C)"
    by blast
  have ou': "outputInv n C lib pRef tRef h'"
  proof (rule outputInvI [where ps = ps])
    show "arrayOf h' pRef = Some ps"
      using ps od(2) af(4) [of pRef] by (simp add: arrayOf_def)
    fix p assume "p \<in> set ps"
    with el have p: "p < h_next h" "\<exists>c st. h_cells h p = Some (PlacementObj c st) \<and> c \<in> C" by auto
    with af(4) [of p] af(2) show "p < h_next h' \<and> (\<exists>c st. h_cells h' p = Some (PlacementObj c st) \<and> c \<in> C)"
      by simp
  qed (use od af(2) in simp_all)
  from fr' li' ou' show ?thesis by (simp add: schedInv_def)
qed

lemma schedInv_push_placement:
  assumes pu: "push pRef p h = Some h'" and inv: "schedInv n C lib pRef tRef h0 h"
    and p: "p < h_next h" "h_cells h p = Some (PlacementObj c st)" "c \<in> C"
  shows "schedInv n C lib pRef tRef h0 h'"
proof -
  from inv have fr: "frame n h0 h" and li: "libraryInv n C lib h"
    and ou: "outputInv n C lib pRef tRef h" by (simp_all add: schedInv_def)
  note pf = push_facts [OF pu]
  note od = outputInvD [OF ou]
  from pu od(1) have "frame n h h'" by (rule frame_push)
  with fr have fr': "frame n h0 h'" by (rule frame_trans)
  from pu li od(6) have li': "libraryInv n C lib h'" by (rule libraryInv_push_other)
  from od(8) pf(2) obtain ps where ps: "arrayOf h pRef = Some ps" "arrayOf h' pRef = Some (ps @ [p])"
    and el: "\<forall>q \<in> set ps. q < h_next h \<and> (\<exists>c st. h_cells h q = Some (PlacementObj c st) \<and> c \<in> C)"
    by auto
  have ou': "outputInv n C lib pRef tRef h'"
  proof (rule outputInvI [where ps = "ps @ [p]"])
    show "arrayOf h' pRef = Some (ps @ [p])" by (rule ps(2))
    fix q assume "q \<in> set (ps @ [p])"
    with el p have q: "q < h_next h" "\<exists>c st. h_cells h q = Some (PlacementObj c st) \<and> c \<in> C" by auto
    with ps(1) have "q \<noteq> pRef" by (auto simp: arrayOf_def)
    with pf(3) [of q] pf(1) q show "q < h_next h' \<and> (\<exists>c st. h_cells h' q = Some (PlacementObj c st) \<and> c \<in> C)"
      by simp
  qed (use od pf(1) in simp_all)
  from fr' li' ou' show ?thesis by (simp add: schedInv_def)
qed

lemma schedInv_push_talkPlan:
  assumes pu: "push tRef t h = Some h'" and inv: "schedInv n C lib pRef tRef h0 h"
  shows "schedInv n C lib pRef tRef h0 h'"
proof -
  from inv have fr: "frame n h0 h" and li: "libraryInv n C lib h"
    and ou: "outputInv n C lib pRef tRef h" by (simp_all add: schedInv_def)
  note pf = push_facts [OF pu]
  note od = outputInvD [OF ou]
  from pu od(3) have "frame n h h'" by (rule frame_push)
  with fr have fr': "frame n h0 h'" by (rule frame_trans)
  from pu li od(7) have li': "libraryInv n C lib h'" by (rule libraryInv_push_other)
  from od(8) obtain ps where ps: "arrayOf h pRef = Some ps"
    and el: "\<forall>q \<in> set ps. q < h_next h \<and> (\<exists>c st. h_cells h q = Some (PlacementObj c st) \<and> c \<in> C)"
    by auto
  from pf(2) obtain ts where ts: "arrayOf h tRef = Some ts" by blast
  have ou': "outputInv n C lib pRef tRef h'"
  proof (rule outputInvI [where ps = ps])
    show "arrayOf h' pRef = Some ps"
      using ps od(5) pf(3) [of pRef] by (simp add: arrayOf_def)
    fix q assume "q \<in> set ps"
    with el have q: "q < h_next h" "\<exists>c st. h_cells h q = Some (PlacementObj c st) \<and> c \<in> C" by auto
    with ts have "q \<noteq> tRef" by (auto simp: arrayOf_def)
    with pf(3) [of q] pf(1) q show "q < h_next h' \<and> (\<exists>c st. h_cells h' q = Some (PlacementObj c st) \<and> c \<in> C)"
      by simp
  qed (use od pf(1) in simp_all)
  from fr' li' ou' show ?thesis by (simp add: schedInv_def)
qed

lemma takeClipH_inv:
  assumes run: "takeClipH lib pRef ty s = (r, s')"
    and inv: "schedInv n C lib pRef tRef h0 (hs_heap s)"
  shows "schedInv n C lib pRef tRef h0 (hs_heap s')"
proof -
  from inv have li: "libraryInv n C lib (hs_heap s)" by (simp add: schedInv_def)
  from libraryInvD(3) [OF li, of ty] obtain list
    where list: "arrayOf (hs_heap s) (poolRef lib ty) = Some list" "set list \<subseteq> C" by blast
  show ?thesis
  proof (cases "list = []")
    case True
    with run list inv show ?thesis by (simp add: takeClipH_def)
  next
    case False
    define v where "v = hs_counters s ty"
    define clip where "clip = list ! (v mod length list)"
    have cC: "clip \<in> C" using False list(2) by (auto simp: clip_def)
    obtain p h1 where al: "alloc (PlacementObj clip (hs_videoCursor s)) (hs_heap s) = (p, h1)"
      by (cases "alloc (PlacementObj clip (hs_videoCursor s)) (hs_heap s)")
    note af = alloc_facts [OF al]
    from al inv have inv1: "schedInv n C lib pRef tRef h0 h1" by (rule schedInv_alloc)
    show ?thesis
    proof (cases "push pRef p h1")
      case None
      with run list False al inv1 show ?thesis
        by (auto simp: takeClipH_def nextIndex_def Let_def v_def clip_def)
    next
      case (Some h2)
      have "schedInv n C lib pRef tRef h0 h2"
        using Some inv1 _ af(3) cC by (rule schedInv_push_placement) (simp add: af)
      with run list False al Some show ?thesis
        by (auto simp: takeClipH_def nextIndex_def Let_def v_def clip_def split: option.splits)
    qed
  qed
qed

lemma maybeTakeClipH_inv:
  assumes run: "maybeTakeClipH lib pRef ty s = (r, s')"
    and inv: "schedInv n C lib pRef tRef h0 (hs_heap s)"
  shows "schedInv n C lib pRef tRef h0 (hs_heap s')"
proof (cases "\<exists>list. arrayOf (hs_heap s) (poolRef lib ty) = Some list \<and> list \<noteq> []")
  case False
  with run inv show ?thesis by (auto simp: maybeTakeClipH_def split: option.splits if_splits)
next
  case True
  obtain r1 s1 where t: "takeClipH lib pRef ty s = (r1, s1)" by (cases "takeClipH lib pRef ty s")
  from takeClipH_inv [OF t inv] have "schedInv n C lib pRef tRef h0 (hs_heap s1)" .
  with run True t show ?thesis by (auto simp: maybeTakeClipH_def split: sum.splits)
qed

lemma coverLoopH_inv_aux:
  "coverLoopH lib pRef segmentRef covered s = Some out \<Longrightarrow>
     schedInv n C lib pRef tRef h0 (hs_heap s) \<longrightarrow> schedInv n C lib pRef tRef h0 (hs_heap (snd out))"
proof (rule coverLoopH.raw_induct
    [where P = "\<lambda>lib pRef segmentRef covered s out.
       schedInv n C lib pRef tRef h0 (hs_heap s) \<longrightarrow> schedInv n C lib pRef tRef h0 (hs_heap (snd out))"],
    goal_cases)
  case (1 f lib pRef segmentRef covered s out)
  show ?case
  proof
    assume inv: "schedInv n C lib pRef tRef h0 (hs_heap s)"
    show "schedInv n C lib pRef tRef h0 (hs_heap (snd out))"
    proof (cases "segmentOf (hs_heap s) segmentRef")
      case None
      with 1(3) inv show ?thesis by auto
    next
      case (Some segment)
      show ?thesis
      proof (cases "covered + 1 / 100 < seg_duration segment")
        case False
        with 1(3) Some inv show ?thesis by auto
      next
        case True
        obtain r1 s1 where t: "takeClipH lib pRef (coverPool segment) s = (r1, s1)"
          by (cases "takeClipH lib pRef (coverPool segment) s")
        from takeClipH_inv [OF t inv] have inv1: "schedInv n C lib pRef tRef h0 (hs_heap s1)" .
        show ?thesis
        proof (cases r1)
          case (Inl e)
          with 1(3) Some True t inv1 show ?thesis by auto
        next
          case (Inr clip)
          show ?thesis
          proof (cases "clipOf (hs_heap s1) clip")
            case None
            with 1(3) Some True t Inr inv1 show ?thesis by auto
          next
            case (Some c)
            with 1(3) \<open>segmentOf (hs_heap s) segmentRef = Some segment\<close> True t Inr
            have "f lib pRef segmentRef (covered + clip_duration c) s1 = Some out" by simp
            from 1(2) [OF this] inv1 show ?thesis by blast
          qed
        qed
      qed
    qed
  qed
qed

lemma coverLoopH_inv:
  assumes "coverLoopH lib pRef segmentRef covered s = Some (r, s')"
    and "schedInv n C lib pRef tRef h0 (hs_heap s)"
  shows "schedInv n C lib pRef tRef h0 (hs_heap s')"
  using coverLoopH_inv_aux [OF assms(1)] assms(2) by simp

lemma processSegmentH_inv:
  assumes run: "processSegmentH lib pRef tRef segmentsRef i segmentRef s = Some (r, s')"
    and inv: "schedInv n C lib pRef tRef h0 (hs_heap s)"
  shows "schedInv n C lib pRef tRef h0 (hs_heap s')"
proof (cases "segmentOf (hs_heap s) segmentRef")
  case None
  with run inv show ?thesis by (auto simp: processSegmentH_def)
next
  case (Some segment)
  show ?thesis
  proof (cases "seg_kind segment = IdleSeg")
    case True
    with run Some obtain r1 s1 where c: "coverLoopH lib pRef segmentRef 0 s = Some (r1, s1)"
      and s': "hs_heap s' = hs_heap s1"
      by (auto simp: processSegmentH_def split: option.splits sum.splits)
    from coverLoopH_inv [OF c inv] s' show ?thesis by simp
  next
    case False
    obtain r1 s1 where m: "(if hs_previousKind s = IdleSeg
              then maybeTakeClipH lib pRef IdleToSpeech s else (Inr (), s)) = (r1, s1)"
      by (cases "if hs_previousKind s = IdleSeg then maybeTakeClipH lib pRef IdleToSpeech s else (Inr (), s)")
    have inv1: "schedInv n C lib pRef tRef h0 (hs_heap s1)"
      using m inv maybeTakeClipH_inv [of lib pRef IdleToSpeech s r1 s1, OF _ inv]
      by (auto split: if_splits)
    show ?thesis
    proof (cases r1)
      case (Inl e)
      with run Some False m inv1 show ?thesis by (auto simp: processSegmentH_def)
    next
      case (Inr u)
      with run Some False m obtain r2 s2 where c: "coverLoopH lib pRef segmentRef 0 s1 = Some (r2, s2)"
        by (auto simp: processSegmentH_def Let_def split: option.splits)
      from coverLoopH_inv [OF c inv1] have inv2: "schedInv n C lib pRef tRef h0 (hs_heap s2)" .
      show ?thesis
      proof (cases r2)
        case (Inl e)
        with run Some False m Inr c inv2 show ?thesis by (auto simp: processSegmentH_def Let_def)
      next
        case r2: (Inr u2)
        show ?thesis
        proof (cases "segmentOf (hs_heap s2) segmentRef")
          case None
          with run Some False m Inr c r2 inv2 show ?thesis by (auto simp: processSegmentH_def Let_def)
        next
          case seg2: (Some segment2)
          define tp where "tp = TalkPlanObj \<lparr>segmentId = seg_id segment2, videoStart = hs_videoCursor s1,
              videoEnd = hs_videoCursor s2, audioStart = seg_start segment2,
              audioDuration = seg_duration segment2\<rparr>"
          obtain t h3 where al: "alloc tp (hs_heap s2) = (t, h3)" by (cases "alloc tp (hs_heap s2)")
          from al inv2 have inv3: "schedInv n C lib pRef tRef h0 h3" by (rule schedInv_alloc)
          show ?thesis
          proof (cases "push tRef t h3")
            case None
            with run Some False m Inr c r2 seg2 al inv3 show ?thesis
              by (auto simp: processSegmentH_def Let_def tp_def)
          next
            case pu: (Some h4)
            from pu inv3 have inv4: "schedInv n C lib pRef tRef h0 h4" by (rule schedInv_push_talkPlan)
            define s4 where "s4 = s2\<lparr>hs_heap := h4\<rparr>"
            have inv4': "schedInv n C lib pRef tRef h0 (hs_heap s4)" using inv4 by (simp add: s4_def)
            show ?thesis
            proof (cases "nextSegmentH h4 segmentsRef i")
              case (Inl e)
              with run Some False m Inr c r2 seg2 al pu inv4 show ?thesis
                by (auto simp: processSegmentH_def Let_def tp_def)
            next
              case nx: (Inr nextSegment)
              show ?thesis
              proof (cases "nextSegment = None \<or> map_option seg_kind nextSegment = Some IdleSeg")
                case False
                with run Some \<open>seg_kind segment \<noteq> IdleSeg\<close> m Inr c r2 seg2 al pu nx inv4 show ?thesis
                  by (auto simp: processSegmentH_def Let_def tp_def)
              next
                case True
                obtain r5 s5 where m5: "maybeTakeClipH lib pRef SpeechToIdle s4 = (r5, s5)"
                  by (cases "maybeTakeClipH lib pRef SpeechToIdle s4")
                from maybeTakeClipH_inv [OF m5 inv4']
                have inv5: "schedInv n C lib pRef tRef h0 (hs_heap s5)" .
                from run Some \<open>seg_kind segment \<noteq> IdleSeg\<close> m Inr c r2 seg2 al pu nx True m5
                have "hs_heap s' = hs_heap s5"
                  by (auto simp: processSegmentH_def Let_def tp_def s4_def split: sum.splits)
                with inv5 show ?thesis by simp
              qed
            qed
          qed
        qed
      qed
    qed
  qed
qed

lemma forSegmentsH_inv_aux:
  "forSegmentsH lib pRef tRef segmentsRef i s = Some out \<Longrightarrow>
     schedInv n C lib pRef tRef h0 (hs_heap s) \<longrightarrow> schedInv n C lib pRef tRef h0 (hs_heap (snd out))"
proof (rule forSegmentsH.raw_induct
    [where P = "\<lambda>lib pRef tRef segmentsRef i s out.
       schedInv n C lib pRef tRef h0 (hs_heap s) \<longrightarrow> schedInv n C lib pRef tRef h0 (hs_heap (snd out))"],
    goal_cases)
  case (1 f lib pRef tRef segmentsRef i s out)
  show ?case
  proof
    assume inv: "schedInv n C lib pRef tRef h0 (hs_heap s)"
    show "schedInv n C lib pRef tRef h0 (hs_heap (snd out))"
    proof (cases "arrayOf (hs_heap s) segmentsRef")
      case None
      with 1(3) inv show ?thesis by auto
    next
      case (Some segs)
      show ?thesis
      proof (cases "i < length segs")
        case False
        with 1(3) Some inv show ?thesis by auto
      next
        case True
        with 1(3) Some obtain r1 s1
          where p: "processSegmentH lib pRef tRef segmentsRef i (segs ! i) s = Some (r1, s1)"
          by (auto split: option.splits)
        from processSegmentH_inv [OF p inv] have inv1: "schedInv n C lib pRef tRef h0 (hs_heap s1)" .
        show ?thesis
        proof (cases r1)
          case (Inl e)
          with 1(3) Some True p inv1 show ?thesis by auto
        next
          case (Inr u)
          with 1(3) Some True p have "f lib pRef tRef segmentsRef (i + 1) s1 = Some out" by simp
          from 1(2) [OF this] inv1 show ?thesis by blast
        qed
      qed
    qed
  qed
qed

lemma forSegmentsH_inv:
  assumes "forSegmentsH lib pRef tRef segmentsRef i s = Some (r, s')"
    and "schedInv n C lib pRef tRef h0 (hs_heap s)"
  shows "schedInv n C lib pRef tRef h0 (hs_heap s')"
  using forSegmentsH_inv_aux [OF assms(1)] assms(2) by simp

text \<open>
  What a call of buildTimelinePlan leaves behind, whether it returns or throws: the
  cells that existed before are unchanged, and a returned plan refers to a placements
  array whose placements refer to elements of the clips array.
\<close>

lemma buildTimelinePlanH_frame:
  assumes run: "buildTimelinePlanH segmentsRef clipsRef h = Some (r, h')"
    and clips: "arrayOf h clipsRef = Some cs0" "clipsRef < h_next h"
  shows "frame (h_next h) h h'"
    and "r = Inr planRef \<Longrightarrow>
      \<exists>pRef tRef d ps. h_cells h' planRef = Some (TimelinePlanObj pRef tRef d) \<and>
        h_next h \<le> planRef \<and> arrayOf h' pRef = Some ps \<and>
        (\<forall>p \<in> set ps. \<exists>c st. h_cells h' p = Some (PlacementObj c st) \<and> c \<in> set cs0)"
proof -
  let ?n = "h_next h"
  obtain r0 g0 where g: "groupClipsH clipsRef h = (r0, g0)" by (cases "groupClipsH clipsRef h")
  note gi = groupClipsH_inv [OF g clips]
  have both: "frame ?n h h' \<and> (r = Inr planRef \<longrightarrow>
      (\<exists>pRef tRef d ps. h_cells h' planRef = Some (TimelinePlanObj pRef tRef d) \<and>
        ?n \<le> planRef \<and> arrayOf h' pRef = Some ps \<and>
        (\<forall>p \<in> set ps. \<exists>c st. h_cells h' p = Some (PlacementObj c st) \<and> c \<in> set cs0)))"
  proof (cases r0)
    case (Inl e)
    with run g gi(1) show ?thesis by (auto simp: buildTimelinePlanH_def)
  next
    case (Inr lib)
    from gi(2) [OF Inr] have li: "libraryInv ?n (set cs0) lib g0" .
    from libraryInvD(3) [OF li, of Idle] libraryInvD(3) [OF li, of SpeechLoop]
    obtain idles loops where il: "arrayOf g0 (lr_idle lib) = Some idles"
      "arrayOf g0 (lr_speechLoop lib) = Some loops" by auto
    show ?thesis
    proof (cases "idles = [] \<or> loops = []")
      case True
      with run g Inr il gi(1) show ?thesis
        by (auto simp: buildTimelinePlanH_def split: if_splits)
    next
      case False
      obtain pRef h1 where a1: "alloc (ArrayObj []) g0 = (pRef, h1)" by (cases "alloc (ArrayObj []) g0")
      obtain tRef h2 where a2: "alloc (ArrayObj []) h1 = (tRef, h2)" by (cases "alloc (ArrayObj []) h1")
      note f1 = alloc_facts [OF a1] and f2 = alloc_facts [OF a2]
      from gi(1) have ng: "?n \<le> h_next g0" by (simp add: frame_def)
      have fr2: "frame ?n h h2"
        using gi(1) frame_alloc [OF a1 ng] frame_alloc [OF a2, of ?n] ng f1(2)
        by (auto intro: frame_trans)
      have li2: "libraryInv ?n (set cs0) lib h2"
        using libraryInv_alloc [OF a2 libraryInv_alloc [OF a1 li]] .
      have ou2: "outputInv ?n (set cs0) lib pRef tRef h2"
      proof (rule outputInvI [where ps = "[]"])
        fix ty
        from libraryInvD(2) [OF li, of ty] show "poolRef lib ty \<noteq> pRef" "poolRef lib ty \<noteq> tRef"
          using f1(1,2) f2(1) by simp_all
      next
        show "arrayOf h2 pRef = Some []"
          using f1 f2 by (simp add: arrayOf_def)
      qed (use f1 f2 ng in simp_all)
      define s where "s = \<lparr>hs_heap = h2, hs_videoCursor = 0, hs_previousKind = IdleSeg,
                          hs_counters = (\<lambda>_. 0)\<rparr>"
      have inv: "schedInv ?n (set cs0) lib pRef tRef h (hs_heap s)"
        using fr2 li2 ou2 by (simp add: schedInv_def s_def)
      from run g Inr il False a1 a2 obtain r3 s3
        where loop: "forSegmentsH lib pRef tRef segmentsRef 0 s = Some (r3, s3)"
        by (auto simp: buildTimelinePlanH_def Let_def s_def split: option.splits)
      from forSegmentsH_inv [OF loop inv]
      have inv3: "schedInv ?n (set cs0) lib pRef tRef h (hs_heap s3)" .
      show ?thesis
      proof (cases r3)
        case (Inl e)
        with run g Inr il False a1 a2 loop inv3 show ?thesis
          by (auto simp: buildTimelinePlanH_def Let_def s_def schedInv_def)
      next
        case r3: (Inr u)
        obtain rr h4 where a4: "alloc (TimelinePlanObj pRef tRef (hs_videoCursor s3)) (hs_heap s3) = (rr, h4)"
          by (cases "alloc (TimelinePlanObj pRef tRef (hs_videoCursor s3)) (hs_heap s3)")
        note f4 = alloc_facts [OF a4]
        from a4 inv3 have inv4: "schedInv ?n (set cs0) lib pRef tRef h h4" by (rule schedInv_alloc)
        from run g Inr il False a1 a2 loop r3 a4 have out: "r = Inr rr" "h' = h4"
          by (auto simp: buildTimelinePlanH_def Let_def s_def)
        from inv4 have fr4: "frame ?n h h4" and ou4: "outputInv ?n (set cs0) lib pRef tRef h4"
          by (simp_all add: schedInv_def)
        from inv3 have "?n \<le> h_next (hs_heap s3)" by (simp add: schedInv_def frame_def)
        with f4(1) have "?n \<le> rr" by simp
        with outputInvD(8) [OF ou4] f4(3) out fr4 show ?thesis by auto
      qed
    qed
  qed
  then show "frame (h_next h) h h'"
    and "r = Inr planRef \<Longrightarrow>
      \<exists>pRef tRef d ps. h_cells h' planRef = Some (TimelinePlanObj pRef tRef d) \<and>
        h_next h \<le> planRef \<and> arrayOf h' pRef = Some ps \<and>
        (\<forall>p \<in> set ps. \<exists>c st. h_cells h' p = Some (PlacementObj c st) \<and> c \<in> set cs0)"
    by simp_all
qed

text \<open>
  C10. When a call of buildTimelinePlan ends, by a return or by a throw, every cell of
  the store that existed before the call holds what it held: the segments array, the
  clips array and every segment and clip object are unmodified. In a returned plan, the
  clip of every placement is one of the references held by the input clips array.
\<close>

theorem C10_inputs_unmodified:
  assumes run: "buildTimelinePlanH segmentsRef clipsRef h = Some (r, h')"
    and clips: "arrayOf h clipsRef = Some clipRefs" "clipsRef < h_next h"
  shows "(\<forall>a < h_next h. h_cells h' a = h_cells h a) \<and>
         (\<forall>planRef. r = Inr planRef \<longrightarrow>
            (\<exists>placementsRef talkPlansRef total ps.
               h_cells h' planRef = Some (TimelinePlanObj placementsRef talkPlansRef total) \<and>
               arrayOf h' placementsRef = Some ps \<and>
               (\<forall>p \<in> set ps. \<exists>clipRef start.
                  h_cells h' p = Some (PlacementObj clipRef start) \<and> clipRef \<in> set clipRefs)))"
proof -
  note fr = buildTimelinePlanH_frame [OF run clips]
  from fr(1) have "\<forall>a < h_next h. h_cells h' a = h_cells h a" by (simp add: frame_def)
  moreover from fr(2) have "\<forall>planRef. r = Inr planRef \<longrightarrow>
            (\<exists>placementsRef talkPlansRef total ps.
               h_cells h' planRef = Some (TimelinePlanObj placementsRef talkPlansRef total) \<and>
               arrayOf h' placementsRef = Some ps \<and>
               (\<forall>p \<in> set ps. \<exists>clipRef start.
                  h_cells h' p = Some (PlacementObj clipRef start) \<and> clipRef \<in> set clipRefs))"
    by blast
  ultimately show ?thesis by blast
qed

lemma scenarioRun_result: "map_option fst scenarioRun = Some (Inr 24)"
  by code_simp

text \<open>
  On the end-to-end scenario the store after the call holds the plan of C2: the
  placements array at 13, the talk plans array at 14, and the plan object at 24.
\<close>

lemma scenarioRun_store:
  "map (h_cells (snd (the scenarioRun))) [13, 14, 15, 16, 17, 18, 19, 20, 21, 22, 23, 24] =
     [Some (ArrayObj [15, 16, 17, 18, 19, 20, 22, 23]), Some (ArrayObj [21]),
      Some (PlacementObj 0 0), Some (PlacementObj 0 1), Some (PlacementObj 2 2),
      Some (PlacementObj 1 (22 / 10)), Some (PlacementObj 1 (26 / 10)), Some (PlacementObj 1 3),
      Some (TalkPlanObj \<lparr>segmentId = ''talk-1'', videoStart = 22 / 10, videoEnd = 34 / 10,
                          audioStart = 2, audioDuration = 1\<rparr>),
      Some (PlacementObj 3 (34 / 10)), Some (PlacementObj 0 (36 / 10)),
      Some (TimelinePlanObj 13 14 (46 / 10))]"
  by code_simp

lemma scenarioStore_clips: "arrayOf scenarioStore 7 = Some [0, 1, 2, 3]" "h_next scenarioStore = 9"
  by (simp_all add: scenarioStore_def storeOf_def arrayOf_def scenarioClips_def scenarioSegments_def)

text \<open>
  The call of the end-to-end scenario returns the plan object at address 24 and leaves
  the nine cells of its input as they were.
\<close>

theorem C10_inputs_unmodified_witness:
  "map_option fst scenarioRun = Some (Inr 24) \<and>
   arrayOf scenarioStore 7 = Some [0, 1, 2, 3] \<and> 7 < h_next scenarioStore \<and>
   map (h_cells (snd (the scenarioRun))) [0..<9] = map (h_cells scenarioStore) [0..<9]"
proof -
  from scenarioRun_result obtain h' where run: "buildTimelinePlanH 8 7 scenarioStore = Some (Inr 24, h')"
    by (auto simp: scenarioRun_def)
  have lt: "7 < h_next scenarioStore" by (simp add: scenarioStore_clips)
  from C10_inputs_unmodified [OF run scenarioStore_clips(1) lt]
  have "\<forall>a < 9. h_cells h' a = h_cells scenarioStore a" by (simp add: scenarioStore_clips)
  then have "map (h_cells h') [0..<9] = map (h_cells scenarioStore) [0..<9]" by simp
  with run scenarioRun_result scenarioStore_clips(1) lt show ?thesis by (simp add: scenarioRun_def)
qed

end
